theory Spec2Isabelle
  imports Main
begin

section \<open>The LRU list of package lrulist (lrulist.go)\<close>

text \<open>
  The package keeps a circular doubly linked list of nodes, reached from the head pointer
  \<open>cache\<close>, and a Go map \<open>cacheMap\<close> from keys to node pointers. Nodes are shared
  mutable objects, so the model has an explicit node store: the list \<open>nodes\<close> of all
  nodes allocated so far, a pointer being \<open>None\<close> (Go's \<open>nil\<close>) or \<open>Some a\<close> with
  \<open>a\<close> a position in \<open>nodes\<close>. Allocation appends to \<open>nodes\<close>.

  Every public method holds the read-write lock for its whole body, so the methods are
  atomic with respect to each other and are modelled as sequential state transformers;
  the \<open>lock\<close> field is not part of the model. The capacity is a Go \<open>int\<close> that is only
  ever compared, so it is an \<open>int\<close> here.
\<close>

subsection \<open>Values, errors and outcomes\<close>

text \<open>A Go \<open>error\<close> value; \<open>nil\<close> is \<open>None\<close> of \<open>error option\<close>.\<close>

datatype error = Errorf string

type_synonym addr = nat
type_synonym ptr = "addr option"

text \<open>
  What running a piece of code yields: a value, or the run-time panic of a nil pointer
  dereference. \<open>Wild\<close> is an access through a pointer to a node that was never allocated;
  Go has no such pointers, the case only makes the model total.
\<close>

datatype 'a run = NilPanic | Wild | Done 'a

fun then_run :: "'a run \<Rightarrow> ('a \<Rightarrow> 'b run) \<Rightarrow> 'b run" where
  "then_run NilPanic f = NilPanic"
| "then_run Wild f = Wild"
| "then_run (Done x) f = f x"

text \<open>A callback \<open>func(interface{}) error\<close>. The callback is a closure: it may read and
  change variables it has captured, which are the state \<open>'c\<close> threaded through it.\<close>

type_synonym ('v, 'c) callback = "'v \<Rightarrow> 'c \<Rightarrow> error option \<times> 'c"

subsection \<open>Keys and the Go map\<close>

text \<open>
  A key is an \<open>interface{}\<close> value used as the key of a Go map. Most keys equal
  themselves: \<open>Key x\<close>. A floating point NaN (or an array or struct that holds one) does
  not equal itself; for a map all such keys behave alike and they are the one key \<open>NaN\<close>.
  Keys of a type that Go cannot hash (slices, maps, functions) make every map access
  panic; callers must not use them and they are not modelled.
\<close>

datatype 'k gokey = Key 'k | NaN

text \<open>
  A Go map from keys to node pointers. The entries under keys that equal themselves are
  a finite partial function. An entry stored under \<open>NaN\<close> can never be found again: a
  lookup of \<open>NaN\<close> misses, a \<open>delete\<close> of \<open>NaN\<close> removes nothing, and every store
  under \<open>NaN\<close> adds an entry; these entries are kept in the order they were added and
  count for the length of the map.
\<close>

record 'k gomap =
  entries :: "'k \<rightharpoonup> ptr"
  nan_entries :: "ptr list"

definition map_empty :: "'k gomap" where
  "map_empty = \<lparr>entries = Map.empty, nan_entries = []\<rparr>"

text \<open>\<open>item, hit := m[k]\<close>: \<open>None\<close> is a miss.\<close>

definition map_get :: "'k gomap \<Rightarrow> 'k gokey \<Rightarrow> ptr option" where
  "map_get m k = (case k of Key x \<Rightarrow> entries m x | NaN \<Rightarrow> None)"

text \<open>\<open>m[k] = p\<close>\<close>

definition map_put :: "'k gomap \<Rightarrow> 'k gokey \<Rightarrow> ptr \<Rightarrow> 'k gomap" where
  "map_put m k p =
     (case k of
        Key x \<Rightarrow> m\<lparr>entries := (entries m)(x \<mapsto> p)\<rparr>
      | NaN \<Rightarrow> m\<lparr>nan_entries := nan_entries m @ [p]\<rparr>)"

text \<open>\<open>delete(m, k)\<close>\<close>

definition map_delete :: "'k gomap \<Rightarrow> 'k gokey \<Rightarrow> 'k gomap" where
  "map_delete m k =
     (case k of
        Key x \<Rightarrow> m\<lparr>entries := (entries m)(x := None)\<rparr>
      | NaN \<Rightarrow> m)"

text \<open>\<open>len(m)\<close>\<close>

definition map_len :: "'k gomap \<Rightarrow> nat" where
  "map_len m = card (dom (entries m)) + length (nan_entries m)"

subsection \<open>The data\<close>

record ('k, 'v) LRUListNode =
  key :: "'k gokey"
  val :: 'v
  prev :: ptr
  "next" :: ptr

type_synonym ('k, 'v) heap = "('k, 'v) LRUListNode list"

record ('k, 'v, 'c) LRUList =
  cap :: int
  cacheMap :: "'k gomap"
  cache :: ptr
  evict :: "('v, 'c) callback option"
  nodes :: "('k, 'v) heap"

text \<open>Reading a node through a pointer, and assigning to fields of the node a pointer
  refers to.\<close>

definition load :: "('k, 'v) heap \<Rightarrow> ptr \<Rightarrow> ('k, 'v) LRUListNode run" where
  "load h p =
     (case p of
        None \<Rightarrow> NilPanic
      | Some a \<Rightarrow> if a < length h then Done (h ! a) else Wild)"

definition assign ::
  "('k, 'v) heap \<Rightarrow> ptr \<Rightarrow> (('k, 'v) LRUListNode \<Rightarrow> ('k, 'v) LRUListNode) \<Rightarrow> ('k, 'v) heap run"
where
  "assign h p f =
     (case p of
        None \<Rightarrow> NilPanic
      | Some a \<Rightarrow> if a < length h then Done (h[a := f (h ! a)]) else Wild)"

subsection \<open>NewLRUList\<close>

definition NewLRUList :: "int \<Rightarrow> ('v, 'c) callback option \<Rightarrow> ('k, 'v, 'c) LRUList" where
  "NewLRUList c ev =
     \<lparr>cap = c, cacheMap = map_empty, cache = None, evict = ev, nodes = []\<rparr>"

subsection \<open>Moving a node to the head\<close>

text \<open>
  Lines 44 to 48 of \<open>Set\<close>, repeated as lines 99 to 103 of \<open>Get\<close>. A Go tuple assignment
  first evaluates the pointer operands on its left and the expressions on its right, and
  then assigns from left to right:
  \<^verbatim>\<open>
    item.prev.next, item.next.prev = item.next, item.prev
    item.prev, item.next = lruc.cache.prev, lruc.cache
    lruc.cache.prev.next, lruc.cache.prev = item, item
    lruc.cache = item
  \<close>
\<close>

definition move_to_head :: "('k, 'v, 'c) LRUList \<Rightarrow> ptr \<Rightarrow> ('k, 'v, 'c) LRUList run" where
  "move_to_head s item =
     then_run (load (nodes s) item) (\<lambda>it.
     then_run (assign (nodes s) (prev it) (\<lambda>n. n\<lparr>next := next it\<rparr>)) (\<lambda>h1.
     then_run (assign h1 (next it) (\<lambda>n. n\<lparr>prev := prev it\<rparr>)) (\<lambda>h2.
     then_run (load h2 (cache s)) (\<lambda>hd2.
     then_run (assign h2 item (\<lambda>n. n\<lparr>prev := prev hd2, next := cache s\<rparr>)) (\<lambda>h3.
     then_run (load h3 (cache s)) (\<lambda>hd3.
     then_run (assign h3 (prev hd3) (\<lambda>n. n\<lparr>next := item\<rparr>)) (\<lambda>h4.
     then_run (assign h4 (cache s) (\<lambda>n. n\<lparr>prev := item\<rparr>)) (\<lambda>h5.
     Done (s\<lparr>nodes := h5, cache := item\<rparr>)))))))))"

subsection \<open>Set\<close>

text \<open>The number the Go expression \<open>len(lruc.cacheMap)\<close> yields.\<close>

definition len :: "('k, 'v, 'c) LRUList \<Rightarrow> int" where
  "len s = int (map_len (cacheMap s))"

text \<open>Lines 55 to 67: the cache is not full, a new node is allocated and linked in front
  of the head.\<close>

definition insert_new ::
  "('k, 'v, 'c) LRUList \<Rightarrow> 'k gokey \<Rightarrow> 'v \<Rightarrow> ('k, 'v, 'c) LRUList run"
where
  "insert_new s k v =
     (let item = Some (length (nodes s));
          h0 = nodes s @ [\<lparr>key = k, val = v, prev = None, next = None\<rparr>];
          m = map_put (cacheMap s) k item
      in then_run
           (if cache s = None then
              assign h0 item (\<lambda>n. n\<lparr>prev := item, next := item\<rparr>)
            else
              then_run (load h0 (cache s)) (\<lambda>hd0.
              then_run (assign h0 item (\<lambda>n. n\<lparr>prev := prev hd0, next := cache s\<rparr>)) (\<lambda>h1.
              then_run (load h1 (cache s)) (\<lambda>hd1.
              then_run (assign h1 (prev hd1) (\<lambda>n. n\<lparr>next := item\<rparr>)) (\<lambda>h2.
              assign h2 (cache s) (\<lambda>n. n\<lparr>prev := item\<rparr>))))))
           (\<lambda>h. Done (s\<lparr>cacheMap := m, nodes := h, cache := item\<rparr>)))"

text \<open>Lines 79 to 84: the node at the head is given the new key and value.\<close>

definition replace_head ::
  "('k, 'v, 'c) LRUList \<Rightarrow> 'k gokey \<Rightarrow> 'v \<Rightarrow> ('k, 'v, 'c) LRUList run"
where
  "replace_head s k v =
     then_run (load (nodes s) (cache s)) (\<lambda>old.
     let m = map_put (map_delete (cacheMap s) (key old)) k (cache s)
     in then_run (assign (nodes s) (cache s) (\<lambda>n. n\<lparr>key := k, val := v\<rparr>)) (\<lambda>h.
        Done (s\<lparr>cacheMap := m, nodes := h\<rparr>)))"

text \<open>Lines 72 to 77: the call of the eviction callback, when there is one, on the value
  of the node at the head. The result is the callback's error (or \<open>None\<close>) and the state
  of the callback's captured variables.\<close>

definition call_evict :: "('k, 'v, 'c) LRUList \<Rightarrow> 'c \<Rightarrow> (error option \<times> 'c) run" where
  "call_evict s c =
     (case evict s of
        None \<Rightarrow> Done (None, c)
      | Some f \<Rightarrow> then_run (load (nodes s) (cache s)) (\<lambda>n. Done (f (val n) c)))"

definition Set ::
  "('k, 'v, 'c) LRUList \<Rightarrow> 'k gokey \<Rightarrow> 'v \<Rightarrow> 'c \<Rightarrow>
   (error option \<times> ('k, 'v, 'c) LRUList \<times> 'c) run"
where
  "Set s k v c =
     (case map_get (cacheMap s) k of
        Some item \<Rightarrow>
          then_run (if item \<noteq> cache s then move_to_head s item else Done s) (\<lambda>s1.
          then_run (assign (nodes s1) (cache s1) (\<lambda>n. n\<lparr>val := v\<rparr>)) (\<lambda>h.
          Done (None, s1\<lparr>nodes := h\<rparr>, c)))
      | None \<Rightarrow>
          if len s < cap s then
            then_run (insert_new s k v) (\<lambda>s1. Done (None, s1, c))
          else
            then_run (load (nodes s) (cache s)) (\<lambda>hd0.
            let s1 = s\<lparr>cache := prev hd0\<rparr>
            in then_run (call_evict s1 c) (\<lambda>(err, c1).
               case err of
                 Some e \<Rightarrow> Done (Some e, s1, c1)
               | None \<Rightarrow> then_run (replace_head s1 k v) (\<lambda>s2. Done (None, s2, c1)))))"

subsection \<open>Get\<close>

definition Get ::
  "('k, 'v, 'c) LRUList \<Rightarrow> 'k gokey \<Rightarrow>
   ('v option \<times> error option \<times> ('k, 'v, 'c) LRUList) run"
where
  "Get s k =
     (case map_get (cacheMap s) k of
        Some item \<Rightarrow>
          then_run (if item \<noteq> cache s then move_to_head s item else Done s) (\<lambda>s1.
          then_run (load (nodes s1) (cache s1)) (\<lambda>n.
          Done (Some (val n), None, s1)))
      | None \<Rightarrow> Done (None, Some (Errorf ''key doesn't hit''), s))"

subsection \<open>Traverse\<close>

text \<open>The loop of lines 124 to 130. It ends when \<open>cur\<close> is the head pointer again; a
  run that never gets there has the value \<open>None\<close>. \<open>Traverse\<close> assigns to no field of
  the list or of a node; like the other methods it yields the list next to its result.\<close>

partial_function (option) traverse_loop ::
  "('k, 'v) heap \<Rightarrow> ptr \<Rightarrow> ('v, 'c) callback \<Rightarrow> ptr \<Rightarrow> 'c \<Rightarrow> (error option \<times> 'c) run option"
where
  "traverse_loop h head visit cur c =
     (if cur = head then Some (Done (None, c))
      else
        (case load h cur of
           NilPanic \<Rightarrow> Some NilPanic
         | Wild \<Rightarrow> Some Wild
         | Done n \<Rightarrow>
             (case visit (val n) c of
                (Some e, c1) \<Rightarrow> Some (Done (Some e, c1))
              | (None, c1) \<Rightarrow> traverse_loop h head visit (next n) c1)))"

definition Traverse ::
  "('k, 'v, 'c) LRUList \<Rightarrow> ('v, 'c) callback \<Rightarrow> 'c \<Rightarrow>
   (error option \<times> ('k, 'v, 'c) LRUList \<times> 'c) run option"
where
  "Traverse s visit c =
     (if cache s = None then Some (Done (None, s, c))
      else
        (case load (nodes s) (cache s) of
           NilPanic \<Rightarrow> Some NilPanic
         | Wild \<Rightarrow> Some Wild
         | Done n \<Rightarrow>
             (case visit (val n) c of
                (Some e, c1) \<Rightarrow> Some (Done (Some e, s, c1))
              | (None, c1) \<Rightarrow>
                  map_option (\<lambda>r. then_run r (\<lambda>(e, c2). Done (e, s, c2)))
                    (traverse_loop (nodes s) (cache s) visit (next n) c1))))"

section \<open>The recency order and the shape of the list\<close>

text \<open>
  A doubly linked segment: the nodes at the addresses \<open>as\<close>, each pointing with
  \<open>next\<close> to the one after it and with \<open>prev\<close> to the one before it; \<open>p\<close> is what
  \<open>prev\<close> of the first node holds and \<open>q\<close> what \<open>next\<close> of the last node holds.
\<close>

primrec dseg :: "('k, 'v) heap \<Rightarrow> ptr \<Rightarrow> addr list \<Rightarrow> ptr \<Rightarrow> bool" where
  "dseg h p [] q = True"
| "dseg h p (a # as) q =
     (a < length h \<and> prev (h ! a) = p \<and>
      next (h ! a) = (case as of [] \<Rightarrow> q | b # _ \<Rightarrow> Some b) \<and>
      dseg h (Some a) as q)"

text \<open>
  The nodes at the distinct addresses \<open>as\<close> form one cycle: a segment whose end points
  back to its start, and whose start points back to its end.
\<close>

definition cycle :: "('k, 'v) heap \<Rightarrow> addr list \<Rightarrow> bool" where
  "cycle h as = (as \<noteq> [] \<and> distinct as \<and> dseg h (Some (last as)) as (Some (hd as)))"

text \<open>The addresses met by following \<open>next\<close> from the pointer \<open>p\<close> until \<open>next\<close> is the
  pointer \<open>stop\<close>, at most \<open>n\<close> of them; the walk also ends at \<open>nil\<close>.\<close>

fun follow :: "('k, 'v) heap \<Rightarrow> ptr \<Rightarrow> ptr \<Rightarrow> nat \<Rightarrow> addr list" where
  "follow h stop p 0 = []"
| "follow h stop p (Suc n) =
     (case p of
        None \<Rightarrow> []
      | Some a \<Rightarrow>
          if a < length h
          then a # (if next (h ! a) = stop then [] else follow h stop (next (h ! a)) n)
          else [])"

text \<open>
  The recency order of a list: the addresses of the nodes met from the head along
  \<open>next\<close> until the head comes again (no walk is longer than the number of nodes
  allocated). The first is the head, the last is \<open>head.prev\<close>, the node that the next
  eviction takes.
\<close>

definition recency :: "('k, 'v, 'c) LRUList \<Rightarrow> addr list" where
  "recency s = follow (nodes s) (cache s) (cache s) (length (nodes s))"

text \<open>The stored values and the stored keys, in recency order.\<close>

definition vals :: "('k, 'v, 'c) LRUList \<Rightarrow> 'v list" where
  "vals s = map (\<lambda>a. val (nodes s ! a)) (recency s)"

definition stored_keys :: "('k, 'v, 'c) LRUList \<Rightarrow> 'k gokey list" where
  "stored_keys s = map (\<lambda>a. key (nodes s ! a)) (recency s)"

text \<open>Every node of the recency order whose key equals itself is indexed under that
  key.\<close>

definition indexed :: "('k, 'v, 'c) LRUList \<Rightarrow> bool" where
  "indexed s =
     (\<forall>a\<in>set (recency s).
        key (nodes s ! a) \<noteq> NaN \<longrightarrow>
        map_get (cacheMap s) (key (nodes s ! a)) = Some (Some a))"

text \<open>The nodes reached from the head form one cycle of \<open>len(cacheMap)\<close> nodes.\<close>

definition single_cycle :: "('k, 'v, 'c) LRUList \<Rightarrow> bool" where
  "single_cycle s =
     (int (length (recency s)) = len s \<and> cycle (nodes s) (recency s))"

text \<open>
  A well-formed list: the map has finitely many entries (as every Go map has), the nodes
  reached from the head form one cycle unless the head is \<open>nil\<close>, each of them whose key
  equals itself is indexed under its key, and the map has no other entry under a key
  that equals itself (it has as many as there are such nodes). Of the entries under
  \<open>NaN\<close>, which are never removed, there are at least as many as there are nodes holding
  \<open>NaN\<close>, and none while the head is \<open>nil\<close>. The methods keep a list well formed
  whatever keys they are given, so every list that the package builds is well formed
  (\<open>steps_well_formed\<close> below).
\<close>

definition well_formed :: "('k, 'v, 'c) LRUList \<Rightarrow> bool" where
  "well_formed s =
     (finite (dom (entries (cacheMap s))) \<and>
      card (dom (entries (cacheMap s))) =
        length (filter (\<lambda>a. key (nodes s ! a) \<noteq> NaN) (recency s)) \<and>
      length (filter (\<lambda>a. key (nodes s ! a) = NaN) (recency s)) \<le>
        length (nan_entries (cacheMap s)) \<and>
      (if cache s = None then nan_entries (cacheMap s) = []
       else cycle (nodes s) (recency s)) \<and>
      indexed s)"

text \<open>A list that holds no entry and no node under a key that does not equal itself.\<close>

definition plain :: "('k, 'v, 'c) LRUList \<Rightarrow> bool" where
  "plain s =
     (nan_entries (cacheMap s) = [] \<and> (\<forall>a\<in>set (recency s). key (nodes s ! a) \<noteq> NaN))"

text \<open>Two node stores of the same size whose nodes hold the same keys and values (the
  links may differ).\<close>

definition same_data :: "('k, 'v) heap \<Rightarrow> ('k, 'v) heap \<Rightarrow> bool" where
  "same_data h h' =
     (length h' = length h \<and>
      (\<forall>y<length h. key (h' ! y) = key (h ! y) \<and> val (h' ! y) = val (h ! y)))"

text \<open>What the eviction callback, if there is one, answers when it is handed the value
  of the last node in recency order.\<close>

definition evicting :: "('k, 'v, 'c) LRUList \<Rightarrow> 'c \<Rightarrow> error option \<times> 'c" where
  "evicting s c =
     (case evict s of
        None \<Rightarrow> (None, c)
      | Some f \<Rightarrow> f (val (nodes s ! last (recency s))) c)"

text \<open>
  Calling a callback on the values of a list one after the other, stopping at the first
  call that reports a failure. The result is that failure (or \<open>None\<close>) and the state of
  the callback's captured variables after the last call made.
\<close>

fun visit_in_turn :: "('v, 'c) callback \<Rightarrow> 'v list \<Rightarrow> 'c \<Rightarrow> error option \<times> 'c" where
  "visit_in_turn visit [] c = (None, c)"
| "visit_in_turn visit (v # vs) c =
     (case visit v c of
        (Some e, c1) \<Rightarrow> (Some e, c1)
      | (None, c1) \<Rightarrow> visit_in_turn visit vs c1)"

section \<open>Sequences of calls\<close>

text \<open>Sequences of calls of the three methods. A call's result is dropped, the list and
  the callbacks' variables are passed on; a panic or a run without end stops the
  sequence.\<close>

datatype ('k, 'v, 'c) op = OpSet "'k gokey" 'v | OpGet "'k gokey" | OpTraverse "('v, 'c) callback"

fun step ::
  "('k, 'v, 'c) op \<Rightarrow> ('k, 'v, 'c) LRUList \<times> 'c \<Rightarrow> (('k, 'v, 'c) LRUList \<times> 'c) run option"
where
  "step (OpSet k v) (s, c) = Some (then_run (Set s k v c) (\<lambda>(e, s', c'). Done (s', c')))"
| "step (OpGet k) (s, c) = Some (then_run (Get s k) (\<lambda>(x, e, s'). Done (s', c)))"
| "step (OpTraverse visit) (s, c) =
     map_option (\<lambda>r. then_run r (\<lambda>(e, s', c'). Done (s', c'))) (Traverse s visit c)"

fun steps ::
  "('k, 'v, 'c) op list \<Rightarrow> ('k, 'v, 'c) LRUList \<times> 'c \<Rightarrow> (('k, 'v, 'c) LRUList \<times> 'c) run option"
where
  "steps [] sc = Some (Done sc)"
| "steps (x # xs) sc =
     (case step x sc of
        Some (Done sc') \<Rightarrow> steps xs sc'
      | r \<Rightarrow> r)"

text \<open>A call that stores nothing under a key that does not equal itself: any \<open>Get\<close>,
  any \<open>Traverse\<close>, and a \<open>Set\<close> of a key other than \<open>NaN\<close>.\<close>

fun sets_plain_key :: "('k, 'v, 'c) op \<Rightarrow> bool" where
  "sets_plain_key (OpSet k v) = (k \<noteq> NaN)"
| "sets_plain_key (OpGet k) = True"
| "sets_plain_key (OpTraverse visit) = True"

section \<open>Least recently used, on keys\<close>

text \<open>
  The recency order that the claims describe, on keys alone: the stored keys, most
  recently touched first. A \<open>Set\<close> or a \<open>Get\<close> of a stored key moves it to the front,
  a \<open>Set\<close> of a new key puts it in front and, when \<open>n\<close> keys are stored already, drops
  the last key, which is the least recently touched one. \<open>never_fails\<close> says of the
  eviction callback that no call of it reports a failure.
\<close>

definition never_fails :: "('v, 'c) callback option \<Rightarrow> bool" where
  "never_fails ev = (case ev of None \<Rightarrow> True | Some f \<Rightarrow> \<forall>v c. fst (f v c) = None)"

fun lru_step :: "int \<Rightarrow> ('k, 'v, 'c) op \<Rightarrow> 'k gokey list \<Rightarrow> 'k gokey list" where
  "lru_step n (OpSet k v) l =
     (if k \<in> set l then k # remove1 k l
      else if int (length l) < n then k # l
      else k # butlast l)"
| "lru_step n (OpGet k) l = (if k \<in> set l then k # remove1 k l else l)"
| "lru_step n (OpTraverse visit) l = l"

section \<open>Three small lists and three callbacks\<close>

text \<open>
  \<open>refuse\<close> fails on every value, \<open>picky\<close> fails on the value 1 only, \<open>record_visit\<close>
  never fails; each appends the value it is called with to the list of values it has
  seen. \<open>two_full\<close> is the list that \<open>Set("a", 1); Set("b", 2)\<close> builds from
  \<open>NewLRUList(2, ev)\<close> (\<open>two_full_built\<close> below), \<open>one_nan\<close> the list that
  \<open>Set(math.NaN(), 1)\<close> builds from \<open>NewLRUList(1, ev)\<close> (\<open>one_nan_built\<close> below), and
  \<open>nan_twice\<close> the list that \<open>Set(math.NaN(), 1); Set(math.NaN(), 2)\<close> builds from
  \<open>NewLRUList(1, nil)\<close>.
\<close>

definition refuse :: "(int, int list) callback" where
  "refuse v c = (Some (Errorf ''busy''), c @ [v])"

definition picky :: "(int, int list) callback" where
  "picky v c = (if v = 1 then Some (Errorf ''busy'') else None, c @ [v])"

definition record_visit :: "(int, int list) callback" where
  "record_visit v c = (None, c @ [v])"

definition two_full :: "(int, int list) callback option \<Rightarrow> (string, int, int list) LRUList" where
  "two_full ev =
     \<lparr>cap = 2,
      cacheMap = \<lparr>entries = [''a'' \<mapsto> Some 0, ''b'' \<mapsto> Some 1], nan_entries = []\<rparr>,
      cache = Some 1,
      evict = ev,
      nodes = [\<lparr>key = Key ''a'', val = 1, prev = Some 1, next = Some 1\<rparr>,
               \<lparr>key = Key ''b'', val = 2, prev = Some 0, next = Some 0\<rparr>]\<rparr>"

definition one_nan :: "(int, int list) callback option \<Rightarrow> (string, int, int list) LRUList" where
  "one_nan ev =
     \<lparr>cap = 1,
      cacheMap = \<lparr>entries = Map.empty, nan_entries = [Some 0]\<rparr>,
      cache = Some 0,
      evict = ev,
      nodes = [\<lparr>key = NaN, val = 1, prev = Some 0, next = Some 0\<rparr>]\<rparr>"

definition nan_twice :: "(string, int, int list) LRUList" where
  "nan_twice =
     \<lparr>cap = 1,
      cacheMap = \<lparr>entries = Map.empty, nan_entries = [Some 0, Some 0]\<rparr>,
      cache = Some 0,
      evict = None,
      nodes = [\<lparr>key = NaN, val = 2, prev = Some 0, next = Some 0\<rparr>]\<rparr>"

section \<open>Linked segments and cycles\<close>

lemma dseg_append:
  "dseg h p (xs @ ys) q =
     (dseg h p xs (case ys of [] \<Rightarrow> q | b # _ \<Rightarrow> Some b) \<and>
      dseg h (if xs = [] then p else Some (last xs)) ys q)"
  by (induction xs arbitrary: p) (auto split: list.splits)

lemma dseg_bound: "dseg h p as q \<Longrightarrow> a \<in> set as \<Longrightarrow> a < length h"
  by (induction as arbitrary: p) auto

lemma dseg_frame:
  "dseg h p as q \<Longrightarrow>
   (\<forall>x\<in>set as. x < length h \<longrightarrow>
      x < length h' \<and> prev (h' ! x) = prev (h ! x) \<and> next (h' ! x) = next (h ! x)) \<Longrightarrow>
   dseg h' p as q"
  by (induction as arbitrary: p) auto

lemma dseg_upd_other: "a \<notin> set as \<Longrightarrow> dseg (h[a := n]) p as q = dseg h p as q"
  by (induction as arbitrary: p) auto

lemma dseg_exit:
  "dseg h p as q \<Longrightarrow> as \<noteq> [] \<Longrightarrow> distinct as \<Longrightarrow>
   dseg (h[last as := (h ! last as)\<lparr>next := q'\<rparr>]) p as q'"
proof (induction as arbitrary: p)
  case Nil
  then show ?case by simp
next
  case (Cons a as)
  show ?case
  proof (cases as)
    case Nil
    with Cons.prems show ?thesis by simp
  next
    case (Cons b bs)
    have "last as \<in> set as" using Cons by simp
    with Cons.prems have ne: "last as \<noteq> a" by auto
    from Cons Cons.prems Cons.IH [of "Some a"] ne show ?thesis
      by simp
  qed
qed

lemma dseg_entry:
  "dseg h p as q \<Longrightarrow> as \<noteq> [] \<Longrightarrow> distinct as \<Longrightarrow>
   dseg (h[hd as := (h ! hd as)\<lparr>prev := p'\<rparr>]) p' as q"
  by (cases as) (auto simp: dseg_upd_other)

lemma cycle_rotate1: "cycle h as \<Longrightarrow> cycle h (rotate1 as)"
  by (cases as) (auto simp: cycle_def dseg_append split: list.splits)

lemma cycle_rotate: "cycle h as \<Longrightarrow> cycle h (rotate n as)"
  by (induction n) (auto simp: cycle_rotate1)

lemma cycle_hd:
  "cycle h as \<Longrightarrow> hd as < length h \<and> prev (h ! hd as) = Some (last as)"
  by (cases as) (auto simp: cycle_def)

lemma cycle_Cons:
  "cycle h (a # zs) \<Longrightarrow> zs \<noteq> [] \<Longrightarrow>
   a < length h \<and> prev (h ! a) = Some (last zs) \<and> next (h ! a) = Some (hd zs) \<and>
   dseg h (Some a) zs (Some a)"
  by (cases zs) (auto simp: cycle_def)

lemma cycle_bound: "cycle h as \<Longrightarrow> a \<in> set as \<Longrightarrow> a < length h"
  by (auto simp: cycle_def dest: dseg_bound)

lemma cycle_unlink:
  assumes "cycle h (a # zs)" and "zs \<noteq> []"
  defines "h1 \<equiv> h[last zs := (h ! last zs)\<lparr>next := Some (hd zs)\<rparr>]"
  defines "h2 \<equiv> h1[hd zs := (h1 ! hd zs)\<lparr>prev := Some (last zs)\<rparr>]"
  shows "cycle h2 zs"
proof -
  from assms(1,2) have d: "dseg h (Some a) zs (Some a)" and dist: "distinct zs"
    by (auto simp: cycle_def dest: cycle_Cons)
  from dseg_exit [OF d assms(2) dist] have "dseg h1 (Some a) zs (Some (hd zs))"
    by (simp add: h1_def)
  from dseg_entry [OF this assms(2) dist] have "dseg h2 (Some (last zs)) zs (Some (hd zs))"
    by (simp add: h2_def)
  with assms(2) dist show ?thesis by (simp add: cycle_def)
qed

lemma cycle_link:
  assumes "cycle h bs" and "a \<notin> set bs" and "a < length h"
  defines "h3 \<equiv> h[a := (h ! a)\<lparr>prev := Some (last bs), next := Some (hd bs)\<rparr>]"
  defines "h4 \<equiv> h3[last bs := (h3 ! last bs)\<lparr>next := Some a\<rparr>]"
  defines "h5 \<equiv> h4[hd bs := (h4 ! hd bs)\<lparr>prev := Some a\<rparr>]"
  shows "cycle h5 (a # bs)"
proof -
  from assms(1) have ne: "bs \<noteq> []" and dist: "distinct bs"
    and d: "dseg h (Some (last bs)) bs (Some (hd bs))"
    by (auto simp: cycle_def)
  from ne have mem: "last bs \<in> set bs" "hd bs \<in> set bs" by auto
  with assms(2) have neq: "last bs \<noteq> a" "hd bs \<noteq> a" by auto
  from d assms(2) have "dseg h3 (Some (last bs)) bs (Some (hd bs))"
    by (simp add: h3_def dseg_upd_other)
  from dseg_exit [OF this ne dist] have "dseg h4 (Some (last bs)) bs (Some a)"
    by (simp add: h4_def)
  from dseg_entry [OF this ne dist] have d5: "dseg h5 (Some a) bs (Some a)"
    by (simp add: h5_def)
  have "h5 ! a = h3 ! a" using neq by (simp add: h5_def h4_def)
  with assms(3) have "prev (h5 ! a) = Some (last bs)" "next (h5 ! a) = Some (hd bs)"
    by (simp_all add: h3_def)
  moreover have "a < length h5" using assms(3) by (simp add: h5_def h4_def h3_def)
  ultimately show ?thesis using d5 ne dist assms(2)
    by (cases bs) (auto simp: cycle_def)
qed

lemma same_data_refl: "same_data h h"
  by (simp add: same_data_def)

lemma same_data_trans: "same_data h h1 \<Longrightarrow> same_data h1 h2 \<Longrightarrow> same_data h h2"
  by (simp add: same_data_def)

lemma same_data_upd:
  "key n = key (h ! x) \<Longrightarrow> val n = val (h ! x) \<Longrightarrow> same_data h (h[x := n])"
  by (cases "x < length h") (auto simp: same_data_def nth_list_update)

lemma move_to_head_cycle:
  assumes r: "cycle (nodes s) as" and c: "cache s = Some (hd as)"
    and a: "a \<in> set as" and ne: "a \<noteq> hd as"
  shows "\<exists>h'. move_to_head s (Some a) = Done (s\<lparr>nodes := h', cache := Some a\<rparr>) \<and>
               cycle h' (a # remove1 a as) \<and> same_data (nodes s) h'"
proof -
  define h where "h = nodes s"
  from r have dist: "distinct as" by (simp add: cycle_def h_def)
  from a obtain xs ys where as: "as = xs @ a # ys" by (auto simp: in_set_conv_decomp)
  with dist have nin: "a \<notin> set xs" "a \<notin> set ys" by auto
  from as ne have xs: "xs \<noteq> []" by (cases xs) auto
  with as have hd: "hd as = hd xs" by simp
  have rm: "remove1 a as = xs @ ys" using as nin by (simp add: remove1_append)
  define zs where "zs = ys @ xs"
  from xs have zne: "zs \<noteq> []" and lz: "last zs = last xs" by (simp_all add: zs_def)
  have "cycle h (rotate (length xs) as)" using r by (simp add: cycle_rotate h_def)
  then have rz: "cycle h (a # zs)" by (simp add: as zs_def rotate_append)
  note f = cycle_Cons [OF rz zne]
  define h1 where "h1 = h[last zs := (h ! last zs)\<lparr>next := Some (hd zs)\<rparr>]"
  define h2 where "h2 = h1[hd zs := (h1 ! hd zs)\<lparr>prev := Some (last zs)\<rparr>]"
  have r2z: "cycle h2 zs" unfolding h2_def h1_def by (rule cycle_unlink [OF rz zne])
  define bs where "bs = xs @ ys"
  have "cycle h2 (rotate (length ys) zs)" using r2z by (rule cycle_rotate)
  then have r2: "cycle h2 bs" by (simp add: zs_def bs_def rotate_append)
  have hb: "hd bs = hd xs" using xs by (simp add: bs_def)
  have anb: "a \<notin> set bs" using nin by (simp add: bs_def)
  have len2: "length h2 = length h" by (simp add: h2_def h1_def)
  have al: "a < length h" using f by simp
  define h3 where "h3 = h2[a := (h2 ! a)\<lparr>prev := Some (last bs), next := Some (hd bs)\<rparr>]"
  define h4 where "h4 = h3[last bs := (h3 ! last bs)\<lparr>next := Some a\<rparr>]"
  define h5 where "h5 = h4[hd bs := (h4 ! hd bs)\<lparr>prev := Some a\<rparr>]"
  have r5: "cycle h5 (a # bs)" unfolding h5_def h4_def h3_def
    by (rule cycle_link [OF r2 anb]) (simp add: len2 al)
  have zl: "last zs < length h" "hd zs < length h"
    using zne by (auto intro!: cycle_bound [OF rz])
  have bne: "bs \<noteq> []" using xs by (simp add: bs_def)
  then have "last bs \<in> set bs" "hd bs \<in> set bs"
    by (rule last_in_set, rule hd_in_set)
  then have bl: "last bs < length h" "hd bs < length h"
    using cycle_bound [OF r2] by (simp_all add: len2)
  have hdne: "hd bs \<noteq> a" using anb xs by (auto simp: bs_def)
  from cycle_hd [OF r2] have p2: "prev (h2 ! hd bs) = Some (last bs)" by simp
  have p3: "prev (h3 ! hd bs) = Some (last bs)" using p2 hdne by (simp add: h3_def)
  have s1: "load h (Some a) = Done (h ! a)" using al by (simp add: load_def)
  have s2: "assign h (Some (last zs)) (\<lambda>n. n\<lparr>next := Some (hd zs)\<rparr>) = Done h1"
    using zl by (simp add: assign_def h1_def)
  have s3: "assign h1 (Some (hd zs)) (\<lambda>n. n\<lparr>prev := Some (last zs)\<rparr>) = Done h2"
    using zl by (simp add: assign_def h2_def h1_def)
  have s4: "load h2 (Some (hd bs)) = Done (h2 ! hd bs)" using bl by (simp add: load_def len2)
  have s5: "assign h2 (Some a) (\<lambda>n. n\<lparr>prev := Some (last bs), next := Some (hd bs)\<rparr>) = Done h3"
    using al by (simp add: assign_def h3_def len2)
  have s6: "load h3 (Some (hd bs)) = Done (h3 ! hd bs)"
    using bl by (simp add: load_def len2 h3_def)
  have s7: "assign h3 (Some (last bs)) (\<lambda>n. n\<lparr>next := Some a\<rparr>) = Done h4"
    using bl by (simp add: assign_def h4_def h3_def len2)
  have s8: "assign h4 (Some (hd bs)) (\<lambda>n. n\<lparr>prev := Some a\<rparr>) = Done h5"
    using bl by (simp add: assign_def h5_def h4_def h3_def len2)
  have run: "move_to_head s (Some a) = Done (s\<lparr>nodes := h5, cache := Some a\<rparr>)"
    unfolding move_to_head_def
    using s1 s2 s3 s4 s5 s6 s7 s8 f p2 p3
    by (simp add: h_def [symmetric] c hd hb)
  have sd: "same_data h h5"
    unfolding h5_def h4_def h3_def h2_def h1_def
    by (intro same_data_trans [OF _ same_data_upd] same_data_refl) simp_all
  from run r5 sd show ?thesis by (auto simp: rm bs_def h_def)
qed

lemma follow_None [simp]: "follow h stop None n = []"
  by (cases n) simp_all

lemma follow_hd: "follow h stop p n \<noteq> [] \<Longrightarrow> p = Some (hd (follow h stop p n))"
  by (cases n) (auto split: option.splits if_splits)

lemma dseg_follow:
  "dseg h p as stop \<Longrightarrow> as \<noteq> [] \<Longrightarrow> stop \<notin> Some ` set (tl as) \<Longrightarrow> length as \<le> n \<Longrightarrow>
   follow h stop (Some (hd as)) n = as"
proof (induction as arbitrary: p n)
  case Nil
  then show ?case by simp
next
  case (Cons a as)
  from Cons.prems(4) obtain m where n: "n = Suc m" by (cases n) auto
  show ?case
  proof (cases as)
    case Nil
    with Cons.prems n show ?thesis by simp
  next
    case (Cons b bs)
    with Cons.prems have d: "dseg h (Some a) as stop" and nx: "next (h ! a) = Some b"
      and a: "a < length h" and ne: "Some b \<noteq> stop" and st: "stop \<notin> Some ` set (tl as)"
      by auto
    from Cons.prems(4) n have "length as \<le> m" by simp
    from Cons.IH [OF d _ st this] Cons have "follow h stop (Some b) m = as" by simp
    with n nx a ne Cons show ?thesis by simp
  qed
qed

lemma cycle_length: "cycle h as \<Longrightarrow> length as \<le> length h"
proof -
  assume c: "cycle h as"
  then have "set as \<subseteq> {..<length h}" by (auto simp: cycle_def dest: dseg_bound)
  then have "card (set as) \<le> card {..<length h}" by (intro card_mono) simp_all
  with c show ?thesis by (simp add: cycle_def distinct_card)
qed

lemma cycle_follow: "cycle h as \<Longrightarrow> follow h (Some (hd as)) (Some (hd as)) (length h) = as"
proof -
  assume c: "cycle h as"
  then have "as \<noteq> []" "distinct as" "dseg h (Some (last as)) as (Some (hd as))"
    by (simp_all add: cycle_def)
  moreover from this have "Some (hd as) \<notin> Some ` set (tl as)" by (cases as) auto
  ultimately show ?thesis using cycle_length [OF c] by (intro dseg_follow)
qed

lemma filter_perm_length:
  assumes "distinct xs" and "distinct ys" and "set xs = set ys"
  shows "length (filter P xs) = length (filter P ys)"
proof -
  have "length (filter P xs) = card (set (filter P xs))"
    using assms(1) by (metis distinct_card distinct_filter)
  also have "\<dots> = card (set (filter P ys))" using assms(3) by simp
  also have "\<dots> = length (filter P ys)"
    using assms(2) by (metis distinct_card distinct_filter)
  finally show ?thesis .
qed

lemma set_promoted: "a \<in> set xs \<Longrightarrow> set (a # remove1 a xs) = set xs"
  by (induction xs) auto

lemma set_rotated: "xs \<noteq> [] \<Longrightarrow> set (last xs # butlast xs) = set xs"
  by (induction xs rule: rev_induct) auto

lemma distinct_rotated: "xs \<noteq> [] \<Longrightarrow> distinct xs \<Longrightarrow> distinct (last xs # butlast xs)"
  by (induction xs rule: rev_induct) auto

lemma wfI:
  assumes "finite (dom (entries (cacheMap s)))" and "cycle (nodes s) as"
    and "cache s = Some (hd as)"
    and "card (dom (entries (cacheMap s))) = length (filter (\<lambda>a. key (nodes s ! a) \<noteq> NaN) as)"
    and "length (filter (\<lambda>a. key (nodes s ! a) = NaN) as) \<le> length (nan_entries (cacheMap s))"
    and "\<forall>a\<in>set as. key (nodes s ! a) \<noteq> NaN \<longrightarrow>
           map_get (cacheMap s) (key (nodes s ! a)) = Some (Some a)"
  shows "well_formed s \<and> recency s = as"
proof -
  have "recency s = as" using assms(2,3) cycle_follow [of "nodes s" as]
    by (simp add: recency_def)
  with assms show ?thesis by (simp add: well_formed_def indexed_def)
qed

lemma wf_empty:
  "well_formed s \<Longrightarrow> cache s = None \<Longrightarrow>
   entries (cacheMap s) = Map.empty \<and> nan_entries (cacheMap s) = [] \<and> recency s = []"
  by (auto simp: well_formed_def recency_def)

lemma wf_cycle:
  "well_formed s \<Longrightarrow> cache s = Some a \<Longrightarrow>
   cycle (nodes s) (recency s) \<and> hd (recency s) = a \<and> recency s \<noteq> []"
proof -
  assume w: "well_formed s" and c: "cache s = Some a"
  then have r: "cycle (nodes s) (recency s)" by (simp add: well_formed_def)
  then have ne: "recency s \<noteq> []" by (simp add: cycle_def)
  then have "cache s = Some (hd (recency s))" unfolding recency_def by (rule follow_hd)
  with c r ne show ?thesis by simp
qed

lemma wf_distinct: "well_formed s \<Longrightarrow> distinct (recency s)"
  by (cases "cache s") (auto simp: well_formed_def cycle_def recency_def)

lemma wf_nth_bound: "well_formed s \<Longrightarrow> a \<in> set (recency s) \<Longrightarrow> a < length (nodes s)"
  by (cases "cache s") (auto simp: well_formed_def recency_def dest: cycle_bound)

lemma wf_lookup:
  assumes w: "well_formed s" and l: "map_get (cacheMap s) k = Some p"
  shows "\<exists>a. p = Some a \<and> a \<in> set (recency s) \<and> key (nodes s ! a) = k"
proof -
  define E where "E = entries (cacheMap s)"
  define ps where "ps = filter (\<lambda>a. key (nodes s ! a) \<noteq> NaN) (recency s)"
  define g where "g = (\<lambda>a. key (nodes s ! a))"
  from l obtain x where k: "k = Key x" and x: "E x = Some p"
    by (cases k) (auto simp: map_get_def E_def)
  from w have ix: "\<forall>a\<in>set ps. map_get (cacheMap s) (g a) = Some (Some a)"
    and fin: "finite (dom E)" and len: "card (dom E) = length ps"
    by (auto simp: well_formed_def indexed_def g_def ps_def E_def)
  have d: "distinct ps" using wf_distinct [OF w] by (simp add: ps_def)
  have inj: "inj_on g (set ps)"
  proof (rule inj_onI)
    fix a b assume "a \<in> set ps" "b \<in> set ps" "g a = g b"
    with ix have "Some (Some a) = Some (Some b)" by metis
    then show "a = b" by simp
  qed
  have sub: "g ` set ps \<subseteq> Key ` dom E"
  proof
    fix y assume "y \<in> g ` set ps"
    then obtain a where a: "a \<in> set ps" "y = g a" by auto
    with ix have "map_get (cacheMap s) y = Some (Some a)" by simp
    then show "y \<in> Key ` dom E" by (cases y) (auto simp: map_get_def E_def)
  qed
  have "card (g ` set ps) = card (Key ` dom E)"
    using inj d len by (simp add: card_image distinct_card inj_on_def)
  with sub fin have "g ` set ps = Key ` dom E" by (intro card_subset_eq) simp_all
  moreover have "Key x \<in> Key ` dom E" using x by auto
  ultimately have "Key x \<in> g ` set ps" by simp
  then obtain a where a: "a \<in> set ps" "g a = Key x" by (auto simp: image_iff)
  with ix have "map_get (cacheMap s) (Key x) = Some (Some a)" by metis
  with l k a show ?thesis by (auto simp: g_def ps_def)
qed

lemma wf_frame:
  assumes w: "well_formed s" and m: "cacheMap s' = cacheMap s" and c: "cache s' = cache s"
    and len: "length (nodes s') = length (nodes s)"
    and same: "\<forall>a\<in>set (recency s). key (nodes s' ! a) = key (nodes s ! a) \<and>
                 prev (nodes s' ! a) = prev (nodes s ! a) \<and>
                 next (nodes s' ! a) = next (nodes s ! a)"
  shows "well_formed s' \<and> recency s' = recency s"
proof (cases "cache s")
  case None
  with w m c show ?thesis by (simp add: well_formed_def recency_def indexed_def)
next
  case (Some a)
  with w have r: "cycle (nodes s) (recency s)" and h: "hd (recency s) = a"
    by (auto dest: wf_cycle)
  have "cycle (nodes s') (recency s)"
    using r same len by (auto simp: cycle_def elim!: dseg_frame)
  moreover have "finite (dom (entries (cacheMap s')))" using w m by (simp add: well_formed_def)
  moreover have "filter (\<lambda>a. key (nodes s' ! a) \<noteq> NaN) (recency s) =
      filter (\<lambda>a. key (nodes s ! a) \<noteq> NaN) (recency s)"
    using same by (intro filter_cong) auto
  then have "card (dom (entries (cacheMap s'))) =
      length (filter (\<lambda>a. key (nodes s' ! a) \<noteq> NaN) (recency s))"
    using w m by (simp add: well_formed_def)
  moreover have "filter (\<lambda>a. key (nodes s' ! a) = NaN) (recency s) =
      filter (\<lambda>a. key (nodes s ! a) = NaN) (recency s)"
    using same by (intro filter_cong) auto
  then have "length (filter (\<lambda>a. key (nodes s' ! a) = NaN) (recency s)) \<le>
      length (nan_entries (cacheMap s'))"
    using w m by (simp add: well_formed_def)
  moreover have "\<forall>a\<in>set (recency s). key (nodes s' ! a) \<noteq> NaN \<longrightarrow>
      map_get (cacheMap s') (key (nodes s' ! a)) = Some (Some a)"
    using w m same by (simp add: well_formed_def indexed_def)
  ultimately show ?thesis using c Some h by (intro wfI) simp_all
qed

lemma promote_wf:
  assumes w: "well_formed s" and l: "map_get (cacheMap s) k = Some item"
  shows "\<exists>a s1. item = Some a \<and> a \<in> set (recency s) \<and> key (nodes s ! a) = k \<and>
           (if item \<noteq> cache s then move_to_head s item else Done s) = Done s1 \<and>
           well_formed s1 \<and> recency s1 = a # remove1 a (recency s) \<and> cache s1 = Some a \<and>
           cacheMap s1 = cacheMap s \<and> cap s1 = cap s \<and> evict s1 = evict s \<and>
           same_data (nodes s) (nodes s1)"
proof -
  from wf_lookup [OF w l] obtain a where a: "item = Some a" "a \<in> set (recency s)"
    "key (nodes s ! a) = k" by blast
  from a(2) have "recency s \<noteq> []" by auto
  then obtain b where b: "cache s = Some b" by (cases "cache s") (auto simp: recency_def)
  from wf_cycle [OF w b] have r: "cycle (nodes s) (recency s)" and hd: "hd (recency s) = b"
    and ne: "recency s \<noteq> []" by simp_all
  show ?thesis
  proof (cases "a = b")
    case True
    have "recency s = a # remove1 a (recency s)" using ne hd True by (cases "recency s") auto
    with w a b True show ?thesis by (auto simp: same_data_refl)
  next
    case False
    from move_to_head_cycle [OF r _ a(2)] b hd False
    obtain h' where m: "move_to_head s (Some a) = Done (s\<lparr>nodes := h', cache := Some a\<rparr>)"
      and r': "cycle h' (a # remove1 a (recency s))" and sd: "same_data (nodes s) h'"
      by auto
    define s1 where "s1 = s\<lparr>nodes := h', cache := Some a\<rparr>"
    define as' where "as' = a # remove1 a (recency s)"
    have bound: "\<forall>x\<in>set (recency s). x < length (nodes s)"
      using r by (auto dest: cycle_bound)
    have d: "distinct (recency s)" using r by (simp add: cycle_def)
    have set': "set as' = set (recency s)" unfolding as'_def using a(2) by (rule set_promoted)
    have d': "distinct as'" using r' by (simp add: cycle_def as'_def)
    have keys: "\<forall>x\<in>set as'. key (h' ! x) = key (nodes s ! x)"
      using set' bound sd by (simp add: same_data_def)
    have "well_formed s1 \<and> recency s1 = as'"
    proof (rule wfI)
      show "finite (dom (entries (cacheMap s1)))" using w by (simp add: s1_def well_formed_def)
      show "cycle (nodes s1) as'" using r' by (simp add: s1_def as'_def)
      show "cache s1 = Some (hd as')" by (simp add: s1_def as'_def)
      have "filter (\<lambda>x. key (nodes s1 ! x) \<noteq> NaN) as' =
          filter (\<lambda>x. key (nodes s ! x) \<noteq> NaN) as'"
        using keys by (intro filter_cong) (auto simp: s1_def)
      moreover have "length (filter (\<lambda>x. key (nodes s ! x) \<noteq> NaN) as') =
          length (filter (\<lambda>x. key (nodes s ! x) \<noteq> NaN) (recency s))"
        using d' d set' by (rule filter_perm_length)
      ultimately show "card (dom (entries (cacheMap s1))) =
          length (filter (\<lambda>x. key (nodes s1 ! x) \<noteq> NaN) as')"
        using w by (simp add: s1_def well_formed_def)
      have "filter (\<lambda>x. key (nodes s1 ! x) = NaN) as' =
          filter (\<lambda>x. key (nodes s ! x) = NaN) as'"
        using keys by (intro filter_cong) (auto simp: s1_def)
      moreover have "length (filter (\<lambda>x. key (nodes s ! x) = NaN) as') =
          length (filter (\<lambda>x. key (nodes s ! x) = NaN) (recency s))"
        using d' d set' by (rule filter_perm_length)
      ultimately show "length (filter (\<lambda>x. key (nodes s1 ! x) = NaN) as') \<le>
          length (nan_entries (cacheMap s1))"
        using w by (simp add: s1_def well_formed_def)
      show "\<forall>x\<in>set as'. key (nodes s1 ! x) \<noteq> NaN \<longrightarrow>
          map_get (cacheMap s1) (key (nodes s1 ! x)) = Some (Some x)"
        using w keys set' by (simp add: s1_def well_formed_def indexed_def)
    qed
    with m a b False sd show ?thesis by (auto simp: s1_def as'_def)
  qed
qed

section \<open>The Go map\<close>

lemma map_get_NaN [simp]: "map_get m NaN = None"
  by (simp add: map_get_def)

lemma map_get_put_same: "k \<noteq> NaN \<Longrightarrow> map_get (map_put m k p) k = Some p"
  by (cases k) (simp_all add: map_get_def map_put_def)

lemma map_get_put_other: "k' \<noteq> k \<Longrightarrow> map_get (map_put m k p) k' = map_get m k'"
  by (cases k; cases k') (simp_all add: map_get_def map_put_def)

lemma map_get_delete_same: "map_get (map_delete m k) k = None"
  by (cases k) (simp_all add: map_get_def map_delete_def)

lemma map_get_delete_other: "k' \<noteq> k \<Longrightarrow> map_get (map_delete m k) k' = map_get m k'"
  by (cases k; cases k') (simp_all add: map_get_def map_delete_def)

lemma finite_map_put:
  "finite (dom (entries m)) \<Longrightarrow> finite (dom (entries (map_put m k p)))"
  by (cases k) (simp_all add: map_put_def)

lemma finite_map_delete:
  "finite (dom (entries m)) \<Longrightarrow> finite (dom (entries (map_delete m k)))"
  by (cases k) (simp_all add: map_delete_def)

lemma card_map_put:
  assumes "finite (dom (entries m))" and "map_get m k = None"
  shows "card (dom (entries (map_put m k p))) =
     card (dom (entries m)) + (if k = NaN then 0 else 1)"
proof (cases k)
  case (Key x)
  with assms(2) have "x \<notin> dom (entries m)" by (auto simp: map_get_def)
  with assms(1) have "card (insert x (dom (entries m))) = Suc (card (dom (entries m)))"
    by (rule card_insert_disjoint)
  with Key show ?thesis by (simp add: map_put_def)
next
  case NaN
  then show ?thesis by (simp add: map_put_def)
qed

lemma card_map_delete:
  "finite (dom (entries m)) \<Longrightarrow> k \<noteq> NaN \<Longrightarrow> map_get m k = Some p \<Longrightarrow>
   card (dom (entries m)) = Suc (card (dom (entries (map_delete m k))))"
proof (cases k)
  case (Key x)
  assume f: "finite (dom (entries m))" and g: "map_get m k = Some p"
  with Key have "x \<in> dom (entries m)" by (auto simp: map_get_def)
  with f have "card (dom (entries m)) = Suc (card (dom (entries m) - {x}))"
    by (rule card.remove)
  with Key show ?thesis by (simp add: map_delete_def)
next
  case NaN
  assume "k \<noteq> NaN"
  with NaN show ?thesis by simp
qed

lemma nan_entries_put:
  "nan_entries (map_put m k p) = (if k = NaN then nan_entries m @ [p] else nan_entries m)"
  by (cases k) (simp_all add: map_put_def)

lemma nan_entries_delete: "nan_entries (map_delete m k) = nan_entries m"
  by (cases k) (simp_all add: map_delete_def)

section \<open>What the steps of Set do to a well-formed list\<close>

lemma cycle_single:
  "a < length h \<Longrightarrow> prev (h ! a) = Some a \<Longrightarrow> next (h ! a) = Some a \<Longrightarrow> cycle h [a]"
  by (simp add: cycle_def)

lemma insert_new_wf:
  assumes w: "well_formed s" and l: "map_get (cacheMap s) k = None"
  shows "\<exists>s'. insert_new s k v = Done s' \<and> well_formed s' \<and>
           recency s' = length (nodes s) # recency s \<and>
           cacheMap s' = map_put (cacheMap s) k (Some (length (nodes s))) \<and>
           cache s' = Some (length (nodes s)) \<and> cap s' = cap s \<and> evict s' = evict s \<and>
           length (nodes s') = Suc (length (nodes s)) \<and>
           key (nodes s' ! length (nodes s)) = k \<and> val (nodes s' ! length (nodes s)) = v \<and>
           (\<forall>y<length (nodes s). key (nodes s' ! y) = key (nodes s ! y) \<and>
                                  val (nodes s' ! y) = val (nodes s ! y))"
proof -
  define h where "h = nodes s"
  define n where "n = length h"
  define h0 where "h0 = h @ [\<lparr>key = k, val = v, prev = None, next = None\<rparr>]"
  define m where "m = map_put (cacheMap s) k (Some n)"
  from w have fin: "finite (dom (entries (cacheMap s)))" by (simp add: well_formed_def)
  have finm: "finite (dom (entries m))" unfolding m_def using fin by (rule finite_map_put)
  have cardm: "card (dom (entries m)) =
      card (dom (entries (cacheMap s))) + (if k = NaN then 0 else 1)"
    unfolding m_def using fin l by (rule card_map_put)
  have n0: "n < length h0" "h0 ! n = \<lparr>key = k, val = v, prev = None, next = None\<rparr>"
    by (simp_all add: h0_def n_def)
  have old0: "\<And>y. y < n \<Longrightarrow> h0 ! y = h ! y" by (simp add: h0_def n_def nth_append)
  show ?thesis
  proof (cases "cache s")
    case None
    define h1 where "h1 = h0[n := (h0 ! n)\<lparr>prev := Some n, next := Some n\<rparr>]"
    define s' where "s' = s\<lparr>cacheMap := m, nodes := h1, cache := Some n\<rparr>"
    have run: "insert_new s k v = Done s'"
      using None n0 by (simp add: insert_new_def assign_def Let_def s'_def h1_def h0_def
          m_def n_def h_def)
    from wf_empty [OF w None] have e: "entries (cacheMap s) = Map.empty" "recency s = []"
      by simp_all
    have "well_formed s' \<and> recency s' = [n]"
    proof (rule wfI)
      show "finite (dom (entries (cacheMap s')))" using finm by (simp add: s'_def)
      show "cycle (nodes s') [n]" using n0 by (intro cycle_single) (simp_all add: s'_def h1_def)
      show "cache s' = Some (hd [n])" by (simp add: s'_def)
      show "card (dom (entries (cacheMap s'))) =
          length (filter (\<lambda>a. key (nodes s' ! a) \<noteq> NaN) [n])"
        using cardm e n0 by (simp add: s'_def h1_def)
      show "length (filter (\<lambda>a. key (nodes s' ! a) = NaN) [n]) \<le>
          length (nan_entries (cacheMap s'))"
        using n0 by (simp add: s'_def h1_def m_def nan_entries_put)
      show "\<forall>a\<in>set [n]. key (nodes s' ! a) \<noteq> NaN \<longrightarrow>
          map_get (cacheMap s') (key (nodes s' ! a)) = Some (Some a)"
        using n0 by (simp add: s'_def h1_def m_def map_get_put_same)
    qed
    moreover have "\<forall>y<n. h1 ! y = h ! y" using old0 by (simp add: h1_def)
    moreover have "key (h1 ! n) = k" "val (h1 ! n) = v" "length h1 = Suc n"
      using n0 by (simp_all add: h1_def h0_def n_def)
    ultimately show ?thesis using run e
      by (simp add: s'_def m_def n_def [symmetric] h_def [symmetric])
  next
    case (Some b)
    define as where "as = recency s"
    from wf_cycle [OF w Some] have r: "cycle h as" and hd: "hd as = b" and ne: "as \<noteq> []"
      by (simp_all add: as_def h_def)
    have bound: "\<And>x. x \<in> set as \<Longrightarrow> x < n" using r by (auto simp: n_def dest: cycle_bound)
    then have nin: "n \<notin> set as" by auto
    have r0: "cycle h0 as"
      using r by (auto simp: cycle_def h0_def nth_append elim!: dseg_frame)
    define h3 where "h3 = h0[n := (h0 ! n)\<lparr>prev := Some (last as), next := Some (hd as)\<rparr>]"
    define h4 where "h4 = h3[last as := (h3 ! last as)\<lparr>next := Some n\<rparr>]"
    define h5 where "h5 = h4[hd as := (h4 ! hd as)\<lparr>prev := Some n\<rparr>]"
    have r5: "cycle h5 (n # as)" unfolding h5_def h4_def h3_def
      by (rule cycle_link [OF r0 nin]) (simp add: n0)
    define s' where "s' = s\<lparr>cacheMap := m, nodes := h5, cache := Some n\<rparr>"
    have mem: "last as \<in> set as" "hd as \<in> set as" using ne by simp_all
    then have lb: "last as < n" "hd as < n" "hd as \<noteq> n" using bound nin by auto
    have len0: "length h0 = Suc n" by (simp add: h0_def n_def)
    from cycle_hd [OF r0] have p0: "prev (h0 ! hd as) = Some (last as)" by simp
    then have p3: "prev (h3 ! hd as) = Some (last as)" using lb by (simp add: h3_def)
    have s1: "load h0 (Some (hd as)) = Done (h0 ! hd as)" using lb by (simp add: load_def len0)
    have s2: "assign h0 (Some n) (\<lambda>x. x\<lparr>prev := Some (last as), next := Some (hd as)\<rparr>) = Done h3"
      by (simp add: assign_def len0 h3_def)
    have s3: "load h3 (Some (hd as)) = Done (h3 ! hd as)"
      using lb by (simp add: load_def len0 h3_def)
    have s4: "assign h3 (Some (last as)) (\<lambda>x. x\<lparr>next := Some n\<rparr>) = Done h4"
      using lb by (simp add: assign_def len0 h3_def h4_def)
    have s5: "assign h4 (Some (hd as)) (\<lambda>x. x\<lparr>prev := Some n\<rparr>) = Done h5"
      using lb by (simp add: assign_def len0 h3_def h4_def h5_def)
    have run: "insert_new s k v = Done s'"
      unfolding insert_new_def Let_def
      using Some s1 s2 s3 s4 s5 p0 p3
      by (simp add: h_def [symmetric] n_def [symmetric] h0_def [symmetric] hd s'_def m_def)
    have sd: "same_data h0 h5"
      unfolding h5_def h4_def h3_def
      by (intro same_data_trans [OF _ same_data_upd] same_data_refl) simp_all
    then have data: "\<forall>y<n. key (h5 ! y) = key (h ! y) \<and> val (h5 ! y) = val (h ! y)"
      using old0 by (simp add: same_data_def len0)
    have datan: "key (h5 ! n) = k" "val (h5 ! n) = v" "length h5 = Suc n"
      using sd n0 by (simp_all add: same_data_def len0)
    from w have ix: "\<forall>a\<in>set as. key (h ! a) \<noteq> NaN \<longrightarrow>
        map_get (cacheMap s) (key (h ! a)) = Some (Some a)"
      and len: "card (dom (entries (cacheMap s))) =
        length (filter (\<lambda>a. key (h ! a) \<noteq> NaN) as)"
      and nan: "length (filter (\<lambda>a. key (h ! a) = NaN) as) \<le>
        length (nan_entries (cacheMap s))"
      by (simp_all add: well_formed_def indexed_def as_def h_def)
    have flt: "filter (\<lambda>a. key (h5 ! a) \<noteq> NaN) as = filter (\<lambda>a. key (h ! a) \<noteq> NaN) as"
      using data bound by (intro filter_cong) auto
    have fltn: "filter (\<lambda>a. key (h5 ! a) = NaN) as = filter (\<lambda>a. key (h ! a) = NaN) as"
      using data bound by (intro filter_cong) auto
    have "well_formed s' \<and> recency s' = n # as"
    proof (rule wfI)
      show "finite (dom (entries (cacheMap s')))" using finm by (simp add: s'_def)
      show "cycle (nodes s') (n # as)" using r5 by (simp add: s'_def)
      show "cache s' = Some (hd (n # as))" by (simp add: s'_def)
      show "card (dom (entries (cacheMap s'))) =
          length (filter (\<lambda>a. key (nodes s' ! a) \<noteq> NaN) (n # as))"
        using cardm len flt datan by (simp add: s'_def)
      show "length (filter (\<lambda>a. key (nodes s' ! a) = NaN) (n # as)) \<le>
          length (nan_entries (cacheMap s'))"
        using nan fltn datan by (simp add: s'_def m_def nan_entries_put)
      show "\<forall>a\<in>set (n # as). key (nodes s' ! a) \<noteq> NaN \<longrightarrow>
          map_get (cacheMap s') (key (nodes s' ! a)) = Some (Some a)"
      proof
        fix a assume a: "a \<in> set (n # as)"
        show "key (nodes s' ! a) \<noteq> NaN \<longrightarrow>
            map_get (cacheMap s') (key (nodes s' ! a)) = Some (Some a)"
        proof (cases "a = n")
          case True
          with datan show ?thesis by (simp add: s'_def m_def map_get_put_same)
        next
          case False
          with a have ain: "a \<in> set as" by simp
          with bound data have k': "key (h5 ! a) = key (h ! a)" by simp
          show ?thesis
          proof
            assume "key (nodes s' ! a) \<noteq> NaN"
            with k' ix ain have g: "map_get (cacheMap s) (key (h ! a)) = Some (Some a)"
              by (simp add: s'_def)
            with l have "key (h ! a) \<noteq> k" by auto
            with g k' show "map_get (cacheMap s') (key (nodes s' ! a)) = Some (Some a)"
              by (simp add: s'_def m_def map_get_put_other)
          qed
        qed
      qed
    qed
    with run data datan show ?thesis
      by (simp add: s'_def m_def n_def [symmetric] h_def [symmetric] as_def)
  qed
qed

lemma rotate_back_wf:
  assumes w: "well_formed s" and c: "cache s = Some b"
  shows "load (nodes s) (cache s) = Done (nodes s ! b) \<and>
         prev (nodes s ! b) = Some (last (recency s)) \<and>
         well_formed (s\<lparr>cache := Some (last (recency s))\<rparr>) \<and>
         recency (s\<lparr>cache := Some (last (recency s))\<rparr>) = last (recency s) # butlast (recency s)"
proof -
  define as where "as = recency s"
  from wf_cycle [OF w c] have r: "cycle (nodes s) as" and hd: "hd as = b" and ne: "as \<noteq> []"
    by (simp_all add: as_def)
  from cycle_hd [OF r] hd have b: "b < length (nodes s)" "prev (nodes s ! b) = Some (last as)"
    by simp_all
  have eq: "butlast as @ [last as] = as" using ne by simp
  have "cycle (nodes s) (rotate (length (butlast as)) as)" using r by (rule cycle_rotate)
  then have "cycle (nodes s) (rotate (length (butlast as)) (butlast as @ [last as]))"
    by (simp only: eq)
  then have r': "cycle (nodes s) (last as # butlast as)"
    by (simp only: rotate_append) simp
  have set: "set (last as # butlast as) = set as" using ne by (rule set_rotated)
  have d: "distinct as" using r by (simp add: cycle_def)
  have d': "distinct (last as # butlast as)" using ne d by (rule distinct_rotated)
  have "well_formed (s\<lparr>cache := Some (last as)\<rparr>) \<and>
      recency (s\<lparr>cache := Some (last as)\<rparr>) = last as # butlast as"
  proof (rule wfI)
    show "finite (dom (entries (cacheMap (s\<lparr>cache := Some (last as)\<rparr>))))"
      using w by (simp add: well_formed_def)
    show "cycle (nodes (s\<lparr>cache := Some (last as)\<rparr>)) (last as # butlast as)" using r' by simp
    show "cache (s\<lparr>cache := Some (last as)\<rparr>) = Some (hd (last as # butlast as))" by simp
    have "length (filter (\<lambda>a. key (nodes s ! a) \<noteq> NaN) (last as # butlast as)) =
        length (filter (\<lambda>a. key (nodes s ! a) \<noteq> NaN) as)"
      using d' d set by (rule filter_perm_length)
    with w show "card (dom (entries (cacheMap (s\<lparr>cache := Some (last as)\<rparr>)))) =
        length (filter (\<lambda>a. key (nodes (s\<lparr>cache := Some (last as)\<rparr>) ! a) \<noteq> NaN)
          (last as # butlast as))"
      by (simp add: well_formed_def as_def)
    have "length (filter (\<lambda>a. key (nodes s ! a) = NaN) (last as # butlast as)) =
        length (filter (\<lambda>a. key (nodes s ! a) = NaN) as)"
      using d' d set by (rule filter_perm_length)
    with w show "length (filter (\<lambda>a. key (nodes (s\<lparr>cache := Some (last as)\<rparr>) ! a) = NaN)
          (last as # butlast as)) \<le>
        length (nan_entries (cacheMap (s\<lparr>cache := Some (last as)\<rparr>)))"
      by (simp add: well_formed_def as_def)
    show "\<forall>a\<in>set (last as # butlast as).
            key (nodes (s\<lparr>cache := Some (last as)\<rparr>) ! a) \<noteq> NaN \<longrightarrow>
            map_get (cacheMap (s\<lparr>cache := Some (last as)\<rparr>))
              (key (nodes (s\<lparr>cache := Some (last as)\<rparr>) ! a)) = Some (Some a)"
      unfolding set using w by (simp add: well_formed_def indexed_def as_def)
  qed
  with b c show ?thesis by (simp add: load_def as_def)
qed

lemma replace_head_wf:
  assumes w: "well_formed s" and c: "cache s = Some a" and l: "map_get (cacheMap s) k = None"
  shows "\<exists>s'. replace_head s k v = Done s' \<and> well_formed s' \<and> recency s' = recency s \<and>
           cacheMap s' = map_put (map_delete (cacheMap s) (key (nodes s ! a))) k (Some a) \<and>
           nodes s' = (nodes s)[a := (nodes s ! a)\<lparr>key := k, val := v\<rparr>] \<and>
           cache s' = Some a \<and> cap s' = cap s \<and> evict s' = evict s"
proof -
  define as where "as = recency s"
  define h where "h = nodes s"
  define ko where "ko = key (h ! a)"
  define md where "md = map_delete (cacheMap s) ko"
  define m where "m = map_put md k (Some a)"
  define h' where "h' = h[a := (h ! a)\<lparr>key := k, val := v\<rparr>]"
  define s' where "s' = s\<lparr>cacheMap := m, nodes := h'\<rparr>"
  from wf_cycle [OF w c] have r: "cycle h as" and hd: "hd as = a" and ne: "as \<noteq> []"
    by (simp_all add: as_def h_def)
  from cycle_hd [OF r] hd have al: "a < length h" by simp
  have run: "replace_head s k v = Done s'"
    using al c by (simp add: replace_head_def load_def assign_def s'_def m_def md_def h'_def
        ko_def h_def)
  from w have ix: "\<forall>x\<in>set as. key (h ! x) \<noteq> NaN \<longrightarrow>
      map_get (cacheMap s) (key (h ! x)) = Some (Some x)"
    and len: "card (dom (entries (cacheMap s))) = length (filter (\<lambda>x. key (h ! x) \<noteq> NaN) as)"
    and nan: "length (filter (\<lambda>x. key (h ! x) = NaN) as) \<le> length (nan_entries (cacheMap s))"
    and fin: "finite (dom (entries (cacheMap s)))"
    by (simp_all add: well_formed_def indexed_def as_def h_def)
  from ne hd obtain rest where as: "as = a # rest" by (cases as) auto
  with r have anot: "a \<notin> set rest" by (simp add: cycle_def)
  have ko: "ko \<noteq> NaN \<Longrightarrow> map_get (cacheMap s) ko = Some (Some a)"
    using ix as by (simp add: ko_def)
  have finmd: "finite (dom (entries md))" unfolding md_def using fin by (rule finite_map_delete)
  have cardmd: "card (dom (entries (cacheMap s))) =
      card (dom (entries md)) + (if ko = NaN then 0 else 1)"
  proof (cases "ko = NaN")
    case True
    then show ?thesis by (simp add: md_def map_delete_def)
  next
    case False
    from card_map_delete [OF fin False ko [OF False]] False show ?thesis by (simp add: md_def)
  qed
  have lmd: "map_get md k = None"
  proof (cases "k = ko")
    case True
    then show ?thesis by (simp add: md_def map_get_delete_same)
  next
    case False
    with l show ?thesis by (simp add: md_def map_get_delete_other)
  qed
  have cardm: "card (dom (entries m)) = card (dom (entries md)) + (if k = NaN then 0 else 1)"
    unfolding m_def using finmd lmd by (rule card_map_put)
  have frest: "filter (\<lambda>x. key (h' ! x) \<noteq> NaN) rest = filter (\<lambda>x. key (h ! x) \<noteq> NaN) rest"
  proof (intro filter_cong refl)
    fix x assume "x \<in> set rest"
    with anot have "a \<noteq> x" by auto
    then show "(key (h' ! x) \<noteq> NaN) = (key (h ! x) \<noteq> NaN)" by (simp add: h'_def)
  qed
  have "well_formed s' \<and> recency s' = as"
  proof (rule wfI)
    show "finite (dom (entries (cacheMap s')))"
      using finmd by (simp add: s'_def m_def finite_map_put)
    show "cycle (nodes s') as"
      using r al by (auto simp: s'_def h'_def cycle_def nth_list_update elim!: dseg_frame)
    show "cache s' = Some (hd as)" using c hd by (simp add: s'_def)
    define io :: nat where "io = (if ko = NaN then 0 else 1)"
    define ik :: nat where "ik = (if k = NaN then 0 else 1)"
    define n where "n = length (filter (\<lambda>x. key (h ! x) \<noteq> NaN) rest)"
    have f0: "length (filter (\<lambda>x. key (h ! x) \<noteq> NaN) as) = io + n"
      by (simp add: as ko_def io_def n_def)
    have "key (h' ! a) = k" using al by (simp add: h'_def)
    then have f1: "length (filter (\<lambda>x. key (h' ! x) \<noteq> NaN) as) = ik + n"
      using frest by (simp add: as ik_def n_def)
    from cardm cardmd len f0 have "card (dom (entries m)) = ik + n"
      by (simp add: io_def [symmetric] ik_def [symmetric])
    with f1 show "card (dom (entries (cacheMap s'))) =
        length (filter (\<lambda>x. key (nodes s' ! x) \<noteq> NaN) as)"
      by (simp add: s'_def)
    have "filter (\<lambda>x. key (h' ! x) = NaN) rest = filter (\<lambda>x. key (h ! x) = NaN) rest"
    proof (intro filter_cong refl)
      fix x assume "x \<in> set rest"
      with anot have "a \<noteq> x" by auto
      then show "(key (h' ! x) = NaN) = (key (h ! x) = NaN)" by (simp add: h'_def)
    qed
    then have "length (filter (\<lambda>x. key (h' ! x) = NaN) as) \<le>
        (if k = NaN then 1 else 0) + length (filter (\<lambda>x. key (h ! x) = NaN) as)"
      using \<open>key (h' ! a) = k\<close> by (simp add: as)
    with nan show "length (filter (\<lambda>x. key (nodes s' ! x) = NaN) as) \<le>
        length (nan_entries (cacheMap s'))"
      by (cases "k = NaN") (simp_all add: s'_def m_def md_def nan_entries_put nan_entries_delete)
    show "\<forall>x\<in>set as. key (nodes s' ! x) \<noteq> NaN \<longrightarrow>
        map_get (cacheMap s') (key (nodes s' ! x)) = Some (Some x)"
    proof
      fix x assume x: "x \<in> set as"
      show "key (nodes s' ! x) \<noteq> NaN \<longrightarrow>
          map_get (cacheMap s') (key (nodes s' ! x)) = Some (Some x)"
      proof (cases "x = a")
        case True
        then show ?thesis using al by (simp add: s'_def h'_def m_def map_get_put_same)
      next
        case False
        then have same: "key (h' ! x) = key (h ! x)" by (simp add: h'_def)
        show ?thesis
        proof
          assume "key (nodes s' ! x) \<noteq> NaN"
          with same have nn: "key (h ! x) \<noteq> NaN" by (simp add: s'_def)
          with ix x have kx: "map_get (cacheMap s) (key (h ! x)) = Some (Some x)" by simp
          have "key (h ! x) \<noteq> ko"
          proof
            assume e: "key (h ! x) = ko"
            with nn ko kx have "Some (Some x) = Some (Some a)" by simp
            with False show False by simp
          qed
          moreover from kx l have "key (h ! x) \<noteq> k" by auto
          ultimately show "map_get (cacheMap s') (key (nodes s' ! x)) = Some (Some x)"
            using kx same
            by (simp add: s'_def m_def md_def map_get_put_other map_get_delete_other)
        qed
      qed
    qed
  qed
  with run c show ?thesis by (simp add: s'_def m_def md_def h'_def ko_def h_def as_def)
qed

section \<open>What the methods do to a well-formed list\<close>

lemma traverse_loop_visits:
  assumes "dseg h p xs (Some b)" and "b \<notin> set xs"
  shows "traverse_loop h (Some b) visit (case xs of [] \<Rightarrow> Some b | x # _ \<Rightarrow> Some x) c =
           Some (Done (visit_in_turn visit (map (\<lambda>a. val (h ! a)) xs) c))"
  using assms
proof (induction xs arbitrary: p c)
  case Nil
  show ?case by (subst traverse_loop.simps) simp
next
  case (Cons x xs)
  from Cons.prems have x: "x \<noteq> b" "x < length h"
    "next (h ! x) = (case xs of [] \<Rightarrow> Some b | y # _ \<Rightarrow> Some y)"
    and rest: "dseg h (Some x) xs (Some b)" "b \<notin> set xs"
    by auto
  show ?case
    using x Cons.IH [OF rest]
    by (subst traverse_loop.simps) (auto simp: load_def split: prod.splits option.splits)
qed

lemma Traverse_wf:
  assumes w: "well_formed s"
  shows "Traverse s visit c =
           Some (Done (fst (visit_in_turn visit (vals s) c), s,
                       snd (visit_in_turn visit (vals s) c)))"
proof (cases "cache s")
  case None
  with wf_empty [OF w] show ?thesis by (simp add: Traverse_def vals_def)
next
  case (Some b)
  from wf_cycle [OF w Some] obtain xs where o: "recency s = b # xs"
    and r: "cycle (nodes s) (b # xs)"
    by (cases "recency s") auto
  from r have b: "b < length (nodes s)" "b \<notin> set xs"
    "next (nodes s ! b) = (case xs of [] \<Rightarrow> Some b | y # _ \<Rightarrow> Some y)"
    "dseg (nodes s) (Some b) xs (Some b)"
    by (auto simp: cycle_def)
  note loop = traverse_loop_visits [OF b(4) b(2), of visit]
  show ?thesis
    using Some b(1,3) loop
    by (auto simp: Traverse_def load_def vals_def o split: prod.splits option.splits)
qed

lemma Set_present:
  assumes "well_formed s" and "map_get (cacheMap s) k = Some item"
  shows "\<exists>a s'. item = Some a \<and> a \<in> set (recency s) \<and> Set s k v c = Done (None, s', c) \<and>
           cache s' = Some a \<and> recency s' = a # remove1 a (recency s) \<and>
           key (nodes s' ! a) = k \<and> val (nodes s' ! a) = v \<and>
           cacheMap s' = cacheMap s \<and> well_formed s' \<and> cap s' = cap s \<and> evict s' = evict s \<and>
           (\<forall>x<length (nodes s). key (nodes s' ! x) = key (nodes s ! x))"
proof -
  from promote_wf [OF assms] obtain a s1 where a: "item = Some a" "a \<in> set (recency s)"
    "key (nodes s ! a) = k"
    and p: "(if item \<noteq> cache s then move_to_head s item else Done s) = Done s1"
    and s1: "well_formed s1" "recency s1 = a # remove1 a (recency s)" "cache s1 = Some a"
      "cacheMap s1 = cacheMap s" "same_data (nodes s) (nodes s1)"
      "cap s1 = cap s" "evict s1 = evict s"
    by blast
  define s' where "s' = s1\<lparr>nodes := (nodes s1)[a := (nodes s1 ! a)\<lparr>val := v\<rparr>]\<rparr>"
  have al: "a < length (nodes s1)"
    using wf_nth_bound [OF s1(1)] s1(2) by simp
  have al0: "a < length (nodes s)" using al s1(5) by (simp add: same_data_def)
  have run: "Set s k v c = Done (None, s', c)"
    using assms(2) p s1(3) al by (simp add: Set_def assign_def s'_def)
  have "well_formed s' \<and> recency s' = recency s1"
    by (rule wf_frame [OF s1(1)]) (use al in \<open>auto simp: s'_def nth_list_update\<close>)
  moreover have "key (nodes s' ! a) = k" "val (nodes s' ! a) = v"
    using al al0 a(3) s1(5) by (simp_all add: s'_def same_data_def)
  moreover have "\<forall>x<length (nodes s). key (nodes s' ! x) = key (nodes s ! x)"
    using s1(5) al al0 by (auto simp: s'_def same_data_def nth_list_update)
  ultimately show ?thesis using run a(1,2) s1
    by (simp add: s'_def)
qed

lemma Get_present:
  assumes "well_formed s" and "map_get (cacheMap s) k = Some item"
  shows "\<exists>a s'. item = Some a \<and> a \<in> set (recency s) \<and> key (nodes s ! a) = k \<and>
           Get s k = Done (Some (val (nodes s ! a)), None, s') \<and>
           cache s' = Some a \<and> recency s' = a # remove1 a (recency s) \<and>
           key (nodes s' ! a) = k \<and> val (nodes s' ! a) = val (nodes s ! a) \<and>
           cacheMap s' = cacheMap s \<and> well_formed s' \<and> cap s' = cap s \<and> evict s' = evict s \<and>
           a < length (nodes s') \<and>
           (\<forall>x<length (nodes s). key (nodes s' ! x) = key (nodes s ! x))"
proof -
  from promote_wf [OF assms] obtain a s1 where a: "item = Some a" "a \<in> set (recency s)"
    "key (nodes s ! a) = k"
    and p: "(if item \<noteq> cache s then move_to_head s item else Done s) = Done s1"
    and s1: "well_formed s1" "recency s1 = a # remove1 a (recency s)" "cache s1 = Some a"
      "cacheMap s1 = cacheMap s" "same_data (nodes s) (nodes s1)"
      "cap s1 = cap s" "evict s1 = evict s"
    by blast
  have al: "a < length (nodes s1)"
    using wf_nth_bound [OF s1(1)] s1(2) by simp
  then have same: "key (nodes s1 ! a) = key (nodes s ! a)" "val (nodes s1 ! a) = val (nodes s ! a)"
    using s1(5) by (simp_all add: same_data_def)
  have "Get s k = Done (Some (val (nodes s ! a)), None, s1)"
    using assms(2) p s1(3) al same by (simp add: Get_def load_def)
  moreover have "\<forall>x<length (nodes s). key (nodes s1 ! x) = key (nodes s ! x)"
    using s1(5) by (simp add: same_data_def)
  ultimately show ?thesis using a s1 same al by simp
qed

lemma Set_full:
  assumes w: "well_formed s" and l: "map_get (cacheMap s) k = None" and full: "\<not> len s < cap s"
    and c: "cache s \<noteq> None"
  defines "s1 \<equiv> s\<lparr>cache := Some (last (recency s))\<rparr>"
  shows "well_formed s1" and "recency s1 = last (recency s) # butlast (recency s)"
    and "Set s k v c =
          (case evicting s c of
             (Some e, c1) \<Rightarrow> Done (Some e, s1, c1)
           | (None, c1) \<Rightarrow> then_run (replace_head s1 k v) (\<lambda>s2. Done (None, s2, c1)))"
proof -
  from c obtain b where b: "cache s = Some b" by auto
  note r = rotate_back_wf [OF w b]
  from r show w1: "well_formed s1" and o1: "recency s1 = last (recency s) # butlast (recency s)"
    by (simp_all add: s1_def)
  have "last (recency s) < length (nodes s)"
    using wf_nth_bound [OF w1] o1 by (simp add: s1_def)
  then have "call_evict s1 c = Done (evicting s c)"
    by (simp add: call_evict_def evicting_def load_def s1_def split: option.splits)
  then show "Set s k v c =
          (case evicting s c of
             (Some e, c1) \<Rightarrow> Done (Some e, s1, c1)
           | (None, c1) \<Rightarrow> then_run (replace_head s1 k v) (\<lambda>s2. Done (None, s2, c1)))"
    using l full r by (simp add: Set_def s1_def split: prod.splits option.splits)
qed

section \<open>Every list the package builds is well formed\<close>

lemma wf_len: "well_formed s \<Longrightarrow> plain s \<Longrightarrow> len s = int (length (recency s))"
  by (simp add: well_formed_def plain_def len_def map_len_def)

lemma wf_nonempty: "well_formed s \<Longrightarrow> plain s \<Longrightarrow> 0 < len s \<Longrightarrow> cache s \<noteq> None"
  by (auto simp: len_def map_len_def plain_def dest: wf_empty)

lemma wf_len_ge: "well_formed s \<Longrightarrow> int (length (recency s)) \<le> len s"
proof -
  assume w: "well_formed s"
  have "length (filter (\<lambda>a. key (nodes s ! a) \<noteq> NaN) (recency s)) +
      length (filter (\<lambda>a. \<not> key (nodes s ! a) \<noteq> NaN) (recency s)) = length (recency s)"
    by (rule sum_length_filter_compl)
  with w show ?thesis by (simp add: well_formed_def len_def map_len_def)
qed

lemma wf_head_iff: "well_formed s \<Longrightarrow> (cache s = None) = (len s = 0)"
proof (cases "cache s")
  case None
  assume "well_formed s"
  from wf_empty [OF this None] None show ?thesis by (simp add: len_def map_len_def)
next
  case (Some a)
  assume w: "well_formed s"
  from wf_cycle [OF w Some] wf_len_ge [OF w] Some show ?thesis by (cases "recency s") auto
qed

lemma plain_after_replace:
  assumes "plain s" and "k \<noteq> NaN" and "recency s' = recency s"
    and "nodes s' = (nodes s)[a := (nodes s ! a)\<lparr>key := k, val := v\<rparr>]"
    and "cacheMap s' = map_put (map_delete (cacheMap s) ko) k p"
    and "a < length (nodes s)"
  shows "plain s'"
proof -
  have "key (nodes s' ! x) \<noteq> NaN" if "x \<in> set (recency s)" for x
  proof (cases "x = a")
    case True
    with assms(2,4,6) show ?thesis by simp
  next
    case False
    with assms(1,4) that show ?thesis by (simp add: plain_def)
  qed
  with assms(1,2,3,5) show ?thesis
    by (simp add: plain_def nan_entries_put nan_entries_delete)
qed

lemma Set_panics:
  assumes w: "well_formed s" and c: "cache s = None" and full: "\<not> len s < cap s"
  shows "Set s k v c0 = NilPanic"
proof -
  from wf_empty [OF w c] have "map_get (cacheMap s) k = None"
    by (cases k) (simp_all add: map_get_def)
  with c full show ?thesis by (simp add: Set_def load_def)
qed

lemma Set_effect:
  assumes w: "well_formed s" and ok: "cache s = None \<longrightarrow> len s < cap s"
  shows "\<exists>e s' c'. Set s k v c = Done (e, s', c') \<and> well_formed s' \<and>
           cap s' = cap s \<and> evict s' = evict s \<and>
           (plain s \<longrightarrow> k \<noteq> NaN \<longrightarrow> plain s' \<and> (len s \<le> cap s \<longrightarrow> len s' \<le> cap s'))"
proof (cases "map_get (cacheMap s) k")
  case (Some item)
  from Set_present [OF w Some, of v c] obtain a s' where g: "a \<in> set (recency s)"
    "Set s k v c = Done (None, s', c)" "recency s' = a # remove1 a (recency s)"
    "cacheMap s' = cacheMap s" "well_formed s'" "cap s' = cap s" "evict s' = evict s"
    "\<forall>x<length (nodes s). key (nodes s' ! x) = key (nodes s ! x)"
    by blast
  have set: "set (recency s') = set (recency s)"
    unfolding g(3) using g(1) by (rule set_promoted)
  have "plain s'" if "plain s"
    using that g(4,8) set wf_nth_bound [OF w] by (simp add: plain_def)
  with g show ?thesis by (auto simp: len_def)
next
  case None
  show ?thesis
  proof (cases "len s < cap s")
    case True
    define n where "n = length (nodes s)"
    from insert_new_wf [OF w None, of v] obtain s' where i: "insert_new s k v = Done s'"
      "well_formed s'" "recency s' = n # recency s" "cap s' = cap s" "evict s' = evict s"
      "cacheMap s' = map_put (cacheMap s) k (Some n)" "key (nodes s' ! n) = k"
      "\<forall>y<n. key (nodes s' ! y) = key (nodes s ! y) \<and> val (nodes s' ! y) = val (nodes s ! y)"
      unfolding n_def by blast
    have p: "plain s'" if "plain s" "k \<noteq> NaN"
      using that i(3,6,7,8) wf_nth_bound [OF w]
      by (simp add: plain_def nan_entries_put n_def)
    have "len s' \<le> cap s'" if "plain s" "k \<noteq> NaN"
    proof -
      have "len s' = len s + 1"
        using wf_len [OF i(2) p [OF that]] wf_len [OF w that(1)] i(3) by simp
      with True i(4) show ?thesis by simp
    qed
    with True i None p show ?thesis by (simp add: Set_def)
  next
    case False
    with ok have c: "cache s \<noteq> None" by auto
    define l where "l = last (recency s)"
    define s1 where "s1 = s\<lparr>cache := Some l\<rparr>"
    note f = Set_full [OF w None False c]
    have w1: "well_formed s1" and r1: "recency s1 = l # butlast (recency s)"
      using f(1,2) by (simp_all add: s1_def l_def)
    have run: "Set s k v c =
          (case evicting s c of
             (Some e, c1) \<Rightarrow> Done (Some e, s1, c1)
           | (None, c1) \<Rightarrow> then_run (replace_head s1 k v) (\<lambda>s2. Done (None, s2, c1)))"
      unfolding s1_def l_def by (rule f(3))
    have ne: "recency s \<noteq> []" using c w by (cases "cache s") (auto dest: wf_cycle)
    have set1: "set (recency s1) = set (recency s)"
      unfolding r1 l_def using ne by (rule set_rotated)
    have len1: "len s1 = len s" by (simp add: s1_def len_def)
    have p1: "plain s1" if "plain s"
      using that set1 by (simp add: plain_def) (simp add: s1_def)
    obtain r c1 where ev: "evicting s c = (r, c1)" by (cases "evicting s c")
    show ?thesis
    proof (cases r)
      case (Some e)
      with run ev have "Set s k v c = Done (Some e, s1, c1)" by simp
      with w1 p1 len1 show ?thesis by (simp add: s1_def)
    next
      case None
      have "map_get (cacheMap s1) k = None" "cache s1 = Some l"
        using \<open>map_get (cacheMap s) k = None\<close> by (simp_all add: s1_def)
      from replace_head_wf [OF w1 this(2) this(1), of v] obtain s2 where
        s2: "replace_head s1 k v = Done s2" "well_formed s2" "recency s2 = recency s1"
        "cap s2 = cap s1" "evict s2 = evict s1"
        "cacheMap s2 = map_put (map_delete (cacheMap s1) (key (nodes s1 ! l))) k (Some l)"
        "nodes s2 = (nodes s1)[l := (nodes s1 ! l)\<lparr>key := k, val := v\<rparr>]"
        by blast
      have ll: "l < length (nodes s1)" using wf_nth_bound [OF w1] r1 by simp
      have p2: "plain s2" if "plain s" "k \<noteq> NaN"
        using p1 [OF that(1)] that(2) s2(3,7,6) ll by (rule plain_after_replace)
      have "len s2 = len s" if "plain s" "k \<noteq> NaN"
        using wf_len [OF s2(2) p2 [OF that]] wf_len [OF w1 p1 [OF that(1)]] s2(3) len1
        by simp
      moreover from run ev None s2(1) have "Set s k v c = Done (None, s2, c1)" by simp
      ultimately show ?thesis using s2(2,4,5) p2 by (simp add: s1_def)
    qed
  qed
qed

lemma Set_well_formed:
  assumes "well_formed s" and "Set s k v c = Done (e, s', c')"
  shows "well_formed s' \<and> cap s' = cap s \<and> evict s' = evict s"
proof (cases "cache s = None \<longrightarrow> len s < cap s")
  case True
  from Set_effect [OF assms(1) True, of k v c] assms(2) show ?thesis by auto
next
  case False
  then have "Set s k v c = NilPanic" using assms(1) by (auto intro: Set_panics)
  with assms(2) show ?thesis by simp
qed

lemma Get_effect:
  assumes w: "well_formed s"
  shows "\<exists>x e s'. Get s k = Done (x, e, s') \<and> well_formed s' \<and> cap s' = cap s \<and>
           evict s' = evict s \<and> len s' = len s \<and> (plain s \<longrightarrow> plain s')"
proof (cases "map_get (cacheMap s) k")
  case None
  with w show ?thesis by (simp add: Get_def)
next
  case (Some item)
  from Get_present [OF w Some] obtain a x s' where g: "a \<in> set (recency s)"
    "Get s k = Done (x, None, s')" "recency s' = a # remove1 a (recency s)"
    "cacheMap s' = cacheMap s" "well_formed s'" "cap s' = cap s" "evict s' = evict s"
    "\<forall>x<length (nodes s). key (nodes s' ! x) = key (nodes s ! x)"
    by blast
  have set: "set (recency s') = set (recency s)"
    unfolding g(3) using g(1) by (rule set_promoted)
  have "plain s'" if "plain s"
    using that g(4,8) set wf_nth_bound [OF w] by (simp add: plain_def)
  with g show ?thesis by (auto simp: len_def)
qed

lemma step_well_formed:
  assumes w: "well_formed s" and st: "step x (s, c) = Some (Done (s', c'))"
  shows "well_formed s' \<and> cap s' = cap s \<and> evict s' = evict s"
proof (cases x)
  case (OpSet k v)
  with st obtain e where "Set s k v c = Done (e, s', c')"
    by (cases "Set s k v c") auto
  from Set_well_formed [OF w this] show ?thesis .
next
  case (OpGet k)
  from Get_effect [OF w, of k] OpGet st show ?thesis by auto
next
  case (OpTraverse visit)
  with st w Traverse_wf [OF w, of visit c] show ?thesis by simp
qed

lemma steps_well_formed_from:
  assumes "well_formed s" and "steps xs (s, c) = Some (Done (s', c'))"
  shows "well_formed s' \<and> cap s' = cap s \<and> evict s' = evict s"
  using assms
proof (induction xs arbitrary: s c)
  case Nil
  then show ?case by simp
next
  case (Cons x xs)
  from Cons.prems(2) obtain s1 c1 where s1: "step x (s, c) = Some (Done (s1, c1))"
    "steps xs (s1, c1) = Some (Done (s', c'))"
    by (auto split: option.splits run.splits)
  from step_well_formed [OF Cons.prems(1) s1(1)] Cons.IH [OF _ s1(2)] show ?case by simp
qed

lemma step_returns:
  assumes w: "well_formed s" and pos: "0 < cap s"
  shows "\<exists>s' c'. step x (s, c) = Some (Done (s', c')) \<and> well_formed s' \<and>
           cap s' = cap s \<and> evict s' = evict s"
proof (cases x)
  case (OpSet k v)
  have "cache s = None \<longrightarrow> len s < cap s" using wf_head_iff [OF w] pos by auto
  from Set_effect [OF w this, of k v c] OpSet show ?thesis by auto
next
  case (OpGet k)
  from Get_effect [OF w, of k] OpGet show ?thesis by auto
next
  case (OpTraverse visit)
  with w Traverse_wf [OF w, of visit c] show ?thesis by simp
qed

lemma steps_return:
  assumes "well_formed s" and "0 < cap s"
  shows "\<exists>s' c'. steps xs (s, c) = Some (Done (s', c')) \<and> well_formed s' \<and>
           cap s' = cap s \<and> evict s' = evict s"
  using assms
proof (induction xs arbitrary: s c)
  case Nil
  then show ?case by simp
next
  case (Cons x xs)
  from step_returns [OF Cons.prems, of x c] obtain s1 c1 where
    s1: "step x (s, c) = Some (Done (s1, c1))" "well_formed s1" "cap s1 = cap s"
    "evict s1 = evict s"
    by blast
  with Cons.prems have "0 < cap s1" by simp
  from Cons.IH [OF s1(2) this, of c1] s1 show ?case by auto
qed

lemma wf_New: "well_formed (NewLRUList n ev)"
  by (simp add: well_formed_def NewLRUList_def recency_def indexed_def map_empty_def)

lemma plain_New: "plain (NewLRUList n ev)"
  by (simp add: plain_def NewLRUList_def recency_def map_empty_def)

lemma steps_well_formed:
  assumes "steps xs (NewLRUList n ev, c) = Some (Done (s, c'))"
  shows "well_formed s"
  using steps_well_formed_from [OF wf_New assms] by simp

lemma step_keeps:
  assumes w: "well_formed s" and p: "plain s" and le: "len s \<le> cap s" and pos: "0 < cap s"
    and x: "sets_plain_key x"
  shows "\<exists>s' c'. step x (s, c) = Some (Done (s', c')) \<and> well_formed s' \<and> plain s' \<and>
           len s' \<le> cap s' \<and> cap s' = cap s \<and> evict s' = evict s"
proof (cases x)
  case (OpSet k v)
  have "cache s = None \<longrightarrow> len s < cap s" using wf_head_iff [OF w] pos by auto
  from Set_effect [OF w this, of k v c] OpSet p le x show ?thesis by auto
next
  case (OpGet k)
  from Get_effect [OF w, of k] OpGet p le show ?thesis by auto
next
  case (OpTraverse visit)
  with w p le Traverse_wf [OF w, of visit c] show ?thesis by simp
qed

lemma steps_keep:
  assumes "well_formed s" and "plain s" and "len s \<le> cap s" and "0 < cap s"
    and "\<forall>x\<in>set xs. sets_plain_key x"
  shows "\<exists>s' c'. steps xs (s, c) = Some (Done (s', c')) \<and> well_formed s' \<and> plain s' \<and>
           len s' \<le> cap s' \<and> cap s' = cap s \<and> evict s' = evict s"
  using assms
proof (induction xs arbitrary: s c)
  case Nil
  then show ?case by simp
next
  case (Cons x xs)
  from Cons.prems(5) have x: "sets_plain_key x" and xs: "\<forall>x\<in>set xs. sets_plain_key x"
    by simp_all
  from step_keeps [OF Cons.prems(1-4) x, of c] obtain s1 c1 where
    s1: "step x (s, c) = Some (Done (s1, c1))" "well_formed s1" "plain s1" "len s1 \<le> cap s1"
    "cap s1 = cap s" "evict s1 = evict s"
    by blast
  with Cons.prems have "0 < cap s1" by simp
  from Cons.IH [OF s1(2,3,4) this xs, of c1] s1 show ?case by auto
qed

section \<open>Without failing callbacks the least recently touched key is evicted\<close>

lemma map_remove1_inj:
  "inj_on f (set xs) \<Longrightarrow> a \<in> set xs \<Longrightarrow> map f (remove1 a xs) = remove1 (f a) (map f xs)"
  by (induction xs) (auto simp: inj_on_def)

lemma keys_inj:
  "well_formed s \<Longrightarrow> plain s \<Longrightarrow> inj_on (\<lambda>a. key (nodes s ! a)) (set (recency s))"
proof (rule inj_onI)
  fix x y
  assume "well_formed s" "plain s" "x \<in> set (recency s)" "y \<in> set (recency s)"
    "key (nodes s ! x) = key (nodes s ! y)"
  then have "Some (Some x) = Some (Some y)"
    by (metis well_formed_def indexed_def plain_def)
  then show "x = y" by simp
qed

lemma keys_mem:
  assumes "well_formed s" and "plain s"
  shows "(k \<in> set (stored_keys s)) = (map_get (cacheMap s) k \<noteq> None)"
proof
  assume "k \<in> set (stored_keys s)"
  then obtain a where "a \<in> set (recency s)" "key (nodes s ! a) = k"
    by (auto simp: stored_keys_def)
  with assms show "map_get (cacheMap s) k \<noteq> None"
    by (auto simp: well_formed_def indexed_def plain_def)
next
  assume "map_get (cacheMap s) k \<noteq> None"
  then obtain p where "map_get (cacheMap s) k = Some p" by auto
  from wf_lookup [OF assms(1) this] show "k \<in> set (stored_keys s)"
    by (auto simp: stored_keys_def)
qed

lemma keys_promoted:
  assumes w: "well_formed s" and p: "plain s" and a: "a \<in> set (recency s)"
    and r: "recency s' = a # remove1 a (recency s)"
    and same: "\<forall>x<length (nodes s). key (nodes s' ! x) = key (nodes s ! x)"
  shows "stored_keys s' = key (nodes s ! a) # remove1 (key (nodes s ! a)) (stored_keys s)"
proof -
  have b: "\<forall>x\<in>set (recency s). x < length (nodes s)"
    using w by (auto dest: wf_nth_bound)
  have "set (remove1 a (recency s)) \<subseteq> set (recency s)" by (rule set_remove1_subset)
  with b same have "map (\<lambda>x. key (nodes s' ! x)) (remove1 a (recency s)) =
      map (\<lambda>x. key (nodes s ! x)) (remove1 a (recency s))"
    by (intro map_cong) auto
  moreover have "key (nodes s' ! a) = key (nodes s ! a)" using a b same by simp
  ultimately show ?thesis
    using map_remove1_inj [OF keys_inj [OF w p] a] by (simp add: stored_keys_def r)
qed

lemma step_lru:
  assumes w: "well_formed s" and p: "plain s" and le: "len s \<le> cap s" and pos: "0 < cap s"
    and nf: "never_fails (evict s)" and px: "sets_plain_key x"
    and st: "step x (s, c) = Some (Done (s', c'))"
  shows "stored_keys s' = lru_step (cap s) x (stored_keys s)"
proof (cases x)
  case (OpTraverse visit)
  with st Traverse_wf [OF w, of visit c] show ?thesis by simp
next
  case (OpGet k)
  show ?thesis
  proof (cases "map_get (cacheMap s) k")
    case None
    with st OpGet keys_mem [OF w p, of k] show ?thesis by (simp add: Get_def)
  next
    case (Some item)
    from Get_present [OF w Some] obtain a s1 x where g: "key (nodes s ! a) = k"
      "Get s k = Done (x, None, s1)" "recency s1 = a # remove1 a (recency s)"
      "\<forall>x<length (nodes s). key (nodes s1 ! x) = key (nodes s ! x)" "item = Some a"
      by blast
    from wf_lookup [OF w Some] g(5) have a: "a \<in> set (recency s)" by auto
    from st OpGet g(2) have "s' = s1" by simp
    with keys_promoted [OF w p a g(3,4)] g(1) OpGet Some keys_mem [OF w p, of k]
    show ?thesis by simp
  qed
next
  case (OpSet k v)
  show ?thesis
  proof (cases "map_get (cacheMap s) k")
    case (Some item)
    from Set_present [OF w Some, of v c] obtain a s1 where g:
      "Set s k v c = Done (None, s1, c)" "recency s1 = a # remove1 a (recency s)"
      "\<forall>x<length (nodes s). key (nodes s1 ! x) = key (nodes s ! x)" "item = Some a"
      by blast
    from wf_lookup [OF w Some] g(4) have a: "a \<in> set (recency s)" "key (nodes s ! a) = k"
      by auto
    from st OpSet g(1) have "s' = s1" by simp
    with keys_promoted [OF w p a(1) g(2,3)] a(2) OpSet Some keys_mem [OF w p, of k]
    show ?thesis by simp
  next
    case None
    then have notin: "k \<notin> set (stored_keys s)" using keys_mem [OF w p, of k] by simp
    have lenk: "int (length (stored_keys s)) = len s"
      using wf_len [OF w p] by (simp add: stored_keys_def)
    have b: "\<forall>x\<in>set (recency s). x < length (nodes s)"
      using w by (auto dest: wf_nth_bound)
    show ?thesis
    proof (cases "len s < cap s")
      case True
      from insert_new_wf [OF w None, of v] obtain s1 where i: "insert_new s k v = Done s1"
        "recency s1 = length (nodes s) # recency s" "key (nodes s1 ! length (nodes s)) = k"
        "\<forall>y<length (nodes s). key (nodes s1 ! y) = key (nodes s ! y) \<and>
                               val (nodes s1 ! y) = val (nodes s ! y)"
        by blast
      from st OpSet None True i(1) have "s' = s1" by (simp add: Set_def)
      moreover have "map (\<lambda>x. key (nodes s1 ! x)) (recency s) =
          map (\<lambda>x. key (nodes s ! x)) (recency s)"
        using b i(4) by (intro map_cong) auto
      ultimately show ?thesis using i(2,3) OpSet notin True lenk
        by (simp add: stored_keys_def)
    next
      case False
      with le pos have "0 < len s" by simp
      with w p have c: "cache s \<noteq> None" by (rule wf_nonempty)
      define l where "l = last (recency s)"
      define s1 where "s1 = s\<lparr>cache := Some l\<rparr>"
      note f = Set_full [OF w None False c]
      have ev: "fst (evicting s c) = None"
        using nf by (simp add: evicting_def never_fails_def split: option.splits)
      have s1: "map_get (cacheMap s1) k = None" "cache s1 = Some l" "well_formed s1"
        "recency s1 = l # butlast (recency s)"
        using None f(1,2) by (simp_all add: s1_def l_def)
      from replace_head_wf [OF s1(3,2,1), of v] obtain s2 where
        s2: "replace_head s1 k v = Done s2" "recency s2 = recency s1"
        "nodes s2 = (nodes s1)[l := (nodes s1 ! l)\<lparr>key := k, val := v\<rparr>]"
        by blast
      from f(3) [of v c] ev s2(1) have "Set s k v c = Done (None, s2, snd (evicting s c))"
        by (cases "evicting s c") (simp add: s1_def l_def)
      with st OpSet have s': "s' = s2" by simp
      have ne: "recency s \<noteq> []" using c w by (cases "cache s") (auto dest: wf_cycle)
      have d: "distinct (recency s)"
        using c w by (cases "cache s") (auto dest!: wf_cycle simp: cycle_def)
      have "distinct (butlast (recency s) @ [l])" using d ne by (simp add: l_def)
      then have lnot: "l \<notin> set (butlast (recency s))" by simp
      have ll: "l < length (nodes s)" using b ne by (simp add: l_def)
      have "map (\<lambda>x. key (nodes s2 ! x)) (butlast (recency s)) =
          map (\<lambda>x. key (nodes s ! x)) (butlast (recency s))"
      proof (intro map_cong refl)
        fix x assume "x \<in> set (butlast (recency s))"
        with lnot have "l \<noteq> x" by auto
        then show "key (nodes s2 ! x) = key (nodes s ! x)" by (simp add: s2(3) s1_def)
      qed
      moreover have "key (nodes s2 ! l) = k" using ll by (simp add: s2(3) s1_def)
      ultimately have "stored_keys s2 = k # butlast (stored_keys s)"
        by (simp add: stored_keys_def s2(2) s1(4) map_butlast)
      with s' OpSet notin False lenk show ?thesis by simp
    qed
  qed
qed

lemma steps_lru:
  assumes "well_formed s" and "plain s" and "len s \<le> cap s" and "0 < cap s"
    and "never_fails (evict s)" and "\<forall>x\<in>set xs. sets_plain_key x"
  shows "\<exists>s' c'. steps xs (s, c) = Some (Done (s', c')) \<and>
           stored_keys s' = foldl (\<lambda>l x. lru_step (cap s) x l) (stored_keys s) xs"
  using assms
proof (induction xs arbitrary: s c)
  case Nil
  then show ?case by simp
next
  case (Cons x xs)
  from Cons.prems(6) have x: "sets_plain_key x" and xs: "\<forall>x\<in>set xs. sets_plain_key x"
    by simp_all
  from step_keeps [OF Cons.prems(1-4) x, of c] obtain s1 c1 where
    s1: "step x (s, c) = Some (Done (s1, c1))" "well_formed s1" "plain s1" "len s1 \<le> cap s1"
    "cap s1 = cap s" "evict s1 = evict s"
    by blast
  from step_lru [OF Cons.prems(1-5) x s1(1)]
  have k: "stored_keys s1 = lru_step (cap s) x (stored_keys s)" .
  from Cons.prems s1 have "0 < cap s1" "never_fails (evict s1)" by simp_all
  from Cons.IH [OF s1(2,3,4) this xs, of c1] s1 k show ?case by auto
qed

lemma lru_when_eviction_never_fails:
  fixes xs :: "('k, 'v, 'c) op list"
  assumes "0 < n" and "never_fails ev" and "\<forall>x\<in>set xs. sets_plain_key x"
  shows "\<exists>s c'. steps xs (NewLRUList n ev, c) = Some (Done (s, c')) \<and>
           stored_keys s = foldl (\<lambda>l x. lru_step n x l) [] xs"
proof -
  define s0 :: "('k, 'v, 'c) LRUList" where "s0 = NewLRUList n ev"
  have "well_formed s0" "plain s0" "len s0 \<le> cap s0" "0 < cap s0" "never_fails (evict s0)"
    using assms(1,2) by (simp_all add: s0_def wf_New plain_New)
      (simp_all add: NewLRUList_def len_def map_len_def map_empty_def)
  from steps_lru [OF this assms(3), of c]
  show ?thesis by (simp add: s0_def stored_keys_def recency_def) (simp add: NewLRUList_def)
qed

section \<open>Facts about the small lists\<close>

lemmas run_defs = Set_def Get_def len_def insert_new_def replace_head_def call_evict_def
  move_to_head_def assign_def load_def Let_def map_get_def map_put_def map_delete_def
  map_len_def map_empty_def

lemma two_full_card: "card (dom (entries (cacheMap (two_full ev)))) = 2"
  by (simp add: two_full_def)

lemma two_full_order: "recency (two_full ev) = [1, 0]"
  by (simp add: recency_def two_full_def numeral_2_eq_2)

lemma two_full_turned_order: "recency ((two_full ev)\<lparr>cache := Some 0\<rparr>) = [0, 1]"
  by (simp add: recency_def two_full_def numeral_2_eq_2)

lemma two_full_wf: "well_formed (two_full ev)"
  by (simp add: well_formed_def indexed_def cycle_def two_full_order two_full_card)
    (simp add: two_full_def map_get_def)

lemma two_full_turned_wf: "well_formed ((two_full ev)\<lparr>cache := Some 0\<rparr>)"
  using two_full_card [of ev]
  by (simp add: well_formed_def indexed_def cycle_def two_full_turned_order)
    (simp add: two_full_def map_get_def)

lemma two_full_built:
  "steps [OpSet (Key ''a'') 1, OpSet (Key ''b'') 2] (NewLRUList 2 ev, c) =
     Some (Done (two_full ev, c))"
  by (simp add: run_defs NewLRUList_def two_full_def)

lemma two_full_len: "len (two_full ev) = 2"
  by (simp add: len_def map_len_def two_full_card) (simp add: two_full_def)

lemma two_full_full: "\<not> len (two_full ev) < cap (two_full ev)"
  by (simp add: two_full_len) (simp add: two_full_def)

lemma two_full_fields:
  "map_get (cacheMap (two_full ev)) (Key ''a'') = Some (Some 0)"
  "map_get (cacheMap (two_full ev)) (Key ''b'') = Some (Some 1)"
  "map_get (cacheMap (two_full ev)) (Key ''c'') = None"
  "cache (two_full ev) = Some 1"
  "evict (two_full ev) = ev"
  "nodes (two_full ev) ! 0 = \<lparr>key = Key ''a'', val = 1, prev = Some 1, next = Some 1\<rparr>"
  "nodes (two_full ev) ! 1 = \<lparr>key = Key ''b'', val = 2, prev = Some 0, next = Some 0\<rparr>"
  by (simp_all add: two_full_def map_get_def)

lemma two_full_single_cycle: "single_cycle (two_full ev)"
  using wf_cycle [OF two_full_wf two_full_fields(4), of ev]
  by (simp add: single_cycle_def two_full_len two_full_order)

lemma two_full_vals: "vals (two_full ev) = [2, 1]"
  by (simp add: vals_def two_full_order) (simp add: two_full_def)

lemma two_full_turned_vals: "vals ((two_full ev)\<lparr>cache := Some 0\<rparr>) = [1, 2]"
  by (simp add: vals_def two_full_turned_order) (simp add: two_full_def)

lemma two_full_keys: "stored_keys (two_full ev) = [Key ''b'', Key ''a'']"
  by (simp add: stored_keys_def two_full_order) (simp add: two_full_def)

lemma one_nan_built: "Set (NewLRUList 1 ev) NaN 1 c = Done (None, one_nan ev, c)"
  by (simp add: run_defs NewLRUList_def one_nan_def)

lemma one_nan_order: "recency (one_nan ev) = [0]"
  by (simp add: recency_def one_nan_def)

section \<open>The claims\<close>

text \<open>
  C1. When \<open>Set\<close> is called with an absent key on a full list and the eviction callback
  reports failure, \<open>Set\<close> returns that failure and the whole observable state, the head
  reference included, is as it was before the call.

  The code returns the failure and leaves the index and the nodes alone, but line 70 has
  already moved the head to the least recently used node when the callback is called, and
  the early return of line 75 does not move it back. On the list built by
  \<open>Set("a", 1); Set("b", 2)\<close> with capacity 2 and a callback that refuses, the failed
  \<open>Set("c", 3)\<close> changes the head from the node of \<open>b\<close> to the node of \<open>a\<close> and the
  traversal order from \<open>b, a\<close> to \<open>a, b\<close>.
\<close>

theorem failed_eviction_moves_head:
  "steps [OpSet (Key ''a'') 1, OpSet (Key ''b'') 2] (NewLRUList 2 (Some refuse), []) =
     Some (Done (two_full (Some refuse), [])) \<and>
   Set (two_full (Some refuse)) (Key ''c'') 3 [] =
     Done (Some (Errorf ''busy''), (two_full (Some refuse))\<lparr>cache := Some 0\<rparr>, [1]) \<and>
   cache (two_full (Some refuse)) = Some 1 \<and>
   cache ((two_full (Some refuse))\<lparr>cache := Some 0\<rparr>) \<noteq> cache (two_full (Some refuse)) \<and>
   recency (two_full (Some refuse)) = [1, 0] \<and>
   recency ((two_full (Some refuse))\<lparr>cache := Some 0\<rparr>) = [0, 1]"
proof -
  have a: "steps [OpSet (Key ''a'') 1, OpSet (Key ''b'') 2] (NewLRUList 2 (Some refuse), []) =
     Some (Done (two_full (Some refuse), []))"
    by (rule two_full_built)
  have b: "Set (two_full (Some refuse)) (Key ''c'') 3 [] =
     Done (Some (Errorf ''busy''), (two_full (Some refuse))\<lparr>cache := Some 0\<rparr>, [1])"
    by (simp add: run_defs two_full_def refuse_def)
  have d: "cache (two_full (Some refuse)) = Some 1"
    "cache ((two_full (Some refuse))\<lparr>cache := Some 0\<rparr>) \<noteq> cache (two_full (Some refuse))"
    by (simp_all add: two_full_fields)
  show ?thesis by (intro conjI a b d two_full_order two_full_turned_order)
qed

text \<open>
  C2. On a full list, when \<open>Set\<close> of an absent key \<open>k\<close> calls the eviction callback and
  the callback fails, a following \<open>Get\<close> of the key that was to be evicted succeeds with
  that key's value, and a following \<open>Get\<close> of \<open>k\<close> fails with the error of a key that
  does not hit.

  The first half does not hold for a key that does not equal itself. With capacity 1
  and a callback that refuses: after \<open>Set(math.NaN(), 1)\<close> the list is full,
  \<open>Set("b", 2)\<close> calls the callback on the value 1 and fails, and \<open>Get(math.NaN())\<close>
  then misses, as the lookup of a NaN in a Go map always does.
\<close>

theorem Get_of_NaN_misses_after_failed_eviction:
  "Set (NewLRUList 1 (Some refuse)) NaN 1 [] = Done (None, one_nan (Some refuse), []) \<and>
   map_get (cacheMap (one_nan (Some refuse))) (Key ''b'') = None \<and>
   \<not> len (one_nan (Some refuse)) < cap (one_nan (Some refuse)) \<and>
   Set (one_nan (Some refuse)) (Key ''b'') 2 [] =
     Done (Some (Errorf ''busy''), one_nan (Some refuse), [1]) \<and>
   key (nodes (one_nan (Some refuse)) ! last (recency (one_nan (Some refuse)))) = NaN \<and>
   Get (one_nan (Some refuse)) NaN =
     Done (None, Some (Errorf ''key doesn't hit''), one_nan (Some refuse))"
proof -
  have a: "Set (NewLRUList 1 (Some refuse)) NaN 1 [] = Done (None, one_nan (Some refuse), [])"
    by (rule one_nan_built)
  have b: "map_get (cacheMap (one_nan (Some refuse))) (Key ''b'') = None"
    "\<not> len (one_nan (Some refuse)) < cap (one_nan (Some refuse))"
    by (simp_all add: one_nan_def map_get_def len_def map_len_def)
  have c: "Set (one_nan (Some refuse)) (Key ''b'') 2 [] =
     Done (Some (Errorf ''busy''), one_nan (Some refuse), [1])"
    by (simp add: run_defs one_nan_def refuse_def)
  have d: "key (nodes (one_nan (Some refuse)) ! last (recency (one_nan (Some refuse)))) = NaN"
    by (simp add: one_nan_order) (simp add: one_nan_def)
  have e: "Get (one_nan (Some refuse)) NaN =
     Done (None, Some (Errorf ''key doesn't hit''), one_nan (Some refuse))"
    by (simp add: Get_def)
  show ?thesis by (intro conjI a b c d e)
qed

text \<open>
  C2 as amended. On a full list, when \<open>Set\<close> of an absent key \<open>k\<close> calls the eviction
  callback and the callback fails, a following \<open>Get\<close> of \<open>k\<close> fails with the error of a
  key that does not hit, and, if the key that was to be evicted (the key of the last node
  in recency order) equals itself, a following \<open>Get\<close> of that key succeeds with that
  key's value. The list is any well-formed one, as is every list that calls of the
  package build from \<open>NewLRUList\<close>, whatever the keys (\<open>steps_well_formed\<close> above).
\<close>

theorem Get_after_failed_eviction:
  assumes "well_formed s" and "map_get (cacheMap s) k = None" and "\<not> len s < cap s"
    and "cache s \<noteq> None"
    and "evict s = Some f" and "f (val (nodes s ! last (recency s))) c = (Some e, c')"
  shows "\<exists>s1. Set s k v c = Done (Some e, s1, c') \<and>
           Get s1 k = Done (None, Some (Errorf ''key doesn't hit''), s1) \<and>
           (key (nodes s ! last (recency s)) \<noteq> NaN \<longrightarrow>
            (\<exists>s2. Get s1 (key (nodes s ! last (recency s))) =
               Done (Some (val (nodes s ! last (recency s))), None, s2)))"
proof -
  define l where "l = last (recency s)"
  define s1 where "s1 = s\<lparr>cache := Some l\<rparr>"
  have ev: "evicting s c = (Some e, c')" using assms(5,6) by (simp add: evicting_def)
  note f = Set_full [OF assms(1-4), folded l_def, folded s1_def]
  from Set_full(3) [OF assms(1-4), of v c] ev
  have run: "Set s k v c = Done (Some e, s1, c')" by (simp add: s1_def l_def)
  have miss: "Get s1 k = Done (None, Some (Errorf ''key doesn't hit''), s1)"
    using assms(2) by (simp add: Get_def s1_def)
  have hit: "\<exists>s2. Get s1 (key (nodes s ! l)) = Done (Some (val (nodes s ! l)), None, s2)"
    if "key (nodes s ! l) \<noteq> NaN"
  proof -
    have "l \<in> set (recency s1)" using f(2) by simp
    with f(1) that have "map_get (cacheMap s1) (key (nodes s1 ! l)) = Some (Some l)"
      by (simp add: well_formed_def indexed_def s1_def)
    from Get_present [OF f(1) this] obtain s2 where
      "Get s1 (key (nodes s1 ! l)) = Done (Some (val (nodes s1 ! l)), None, s2)"
      by auto
    then show ?thesis by (auto simp: s1_def)
  qed
  from run miss hit show ?thesis unfolding l_def by blast
qed

theorem Get_after_failed_eviction_witness:
  "well_formed (two_full (Some refuse)) \<and>
   map_get (cacheMap (two_full (Some refuse))) (Key ''c'') = None \<and>
   \<not> len (two_full (Some refuse)) < cap (two_full (Some refuse)) \<and>
   cache (two_full (Some refuse)) \<noteq> None \<and> evict (two_full (Some refuse)) = Some refuse \<and>
   refuse (val (nodes (two_full (Some refuse)) ! last (recency (two_full (Some refuse))))) [] =
     (Some (Errorf ''busy''), [1]) \<and>
   (\<exists>s1. Set (two_full (Some refuse)) (Key ''c'') 3 [] =
            Done (Some (Errorf ''busy''), s1, [1]) \<and>
      Get s1 (Key ''c'') = Done (None, Some (Errorf ''key doesn't hit''), s1) \<and>
      (\<exists>s2. Get s1 (Key ''a'') = Done (Some 1, None, s2)))"
proof -
  have h: "well_formed (two_full (Some refuse))"
    "map_get (cacheMap (two_full (Some refuse))) (Key ''c'') = None"
    "\<not> len (two_full (Some refuse)) < cap (two_full (Some refuse))"
    "cache (two_full (Some refuse)) \<noteq> None" "evict (two_full (Some refuse)) = Some refuse"
    "refuse (val (nodes (two_full (Some refuse)) ! last (recency (two_full (Some refuse))))) [] =
     (Some (Errorf ''busy''), [1])"
    by (simp_all add: two_full_wf two_full_full two_full_fields two_full_order refuse_def)
  from Get_after_failed_eviction [OF h, of 3] h show ?thesis
    by (simp add: two_full_order two_full_fields)
qed

text \<open>
  C3. For a list made with a positive capacity, after every sequence of \<open>Set\<close>, \<open>Get\<close>
  and \<open>Traverse\<close> calls the number of indexed keys is at most the capacity, the nodes
  form one cycle of \<open>len(cacheMap)\<close> nodes when the list is not empty, and the head is
  absent exactly when no key is stored.

  This does not hold when keys that do not equal themselves are stored. With capacity 1:
  after \<open>Set(math.NaN(), 1)\<close> the list is full; \<open>Set(math.NaN(), 2)\<close> misses at line 40,
  the \<open>delete\<close> of line 80 removes nothing and line 82 adds a second entry. The map then
  has 2 entries, more than the capacity, and the cycle has one node.
\<close>

theorem NaN_keys_outgrow_capacity:
  "steps [OpSet NaN 1, OpSet NaN 2] (NewLRUList 1 None, []) = Some (Done (nan_twice, [])) \<and>
   len nan_twice = 2 \<and> cap nan_twice = 1 \<and> \<not> len nan_twice \<le> cap nan_twice \<and>
   cache nan_twice \<noteq> None \<and> recency nan_twice = [0] \<and> \<not> single_cycle nan_twice"
proof -
  have a: "steps [OpSet NaN 1, OpSet NaN 2] (NewLRUList 1 None, []) =
      Some (Done (nan_twice, []))"
    by (simp add: run_defs NewLRUList_def nan_twice_def)
  have b: "len nan_twice = 2" "cap nan_twice = 1" "cache nan_twice \<noteq> None"
    by (simp_all add: nan_twice_def len_def map_len_def)
  have c: "recency nan_twice = [0]" by (simp add: recency_def nan_twice_def)
  have d: "\<not> len nan_twice \<le> cap nan_twice" "\<not> single_cycle nan_twice"
    by (simp_all add: single_cycle_def b c)
  show ?thesis by (intro conjI a b c d)
qed

text \<open>
  C3 as amended. For a list made with a positive capacity, after every sequence of
  \<open>Set\<close>, \<open>Get\<close> and \<open>Traverse\<close> calls (each call returns: none panics and no
  traversal runs forever) the head is absent exactly when no key is stored and, when the
  head is present, the nodes reached from it form one cycle, with \<open>prev\<close> the inverse of
  \<open>next\<close>. If moreover every key given to \<open>Set\<close> equals itself, the number of indexed
  keys is at most the capacity and the cycle has exactly \<open>len(cacheMap)\<close> nodes.
\<close>

theorem invariants_after_every_operation:
  fixes xs :: "('k, 'v, 'c) op list"
  assumes "0 < n"
  shows "\<exists>s c'. steps xs (NewLRUList n ev, c) = Some (Done (s, c')) \<and> cap s = n \<and>
           (cache s = None \<longleftrightarrow> len s = 0) \<and>
           (cache s \<noteq> None \<longrightarrow> cycle (nodes s) (recency s)) \<and>
           ((\<forall>x\<in>set xs. sets_plain_key x) \<longrightarrow>
              len s \<le> cap s \<and> (cache s \<noteq> None \<longrightarrow> single_cycle s))"
proof -
  define s0 :: "('k, 'v, 'c) LRUList" where "s0 = NewLRUList n ev"
  have s0: "well_formed s0" "0 < cap s0" "plain s0" "len s0 \<le> cap s0" "cap s0 = n"
    using assms(1) by (simp_all add: s0_def wf_New plain_New)
      (simp_all add: NewLRUList_def len_def map_len_def map_empty_def)
  from steps_return [OF s0(1,2), of xs c] obtain s c' where
    s: "steps xs (s0, c) = Some (Done (s, c'))" "well_formed s" "cap s = cap s0"
    by blast
  have iff: "cache s = None \<longleftrightarrow> len s = 0" using s(2) by (rule wf_head_iff)
  have cy: "cache s \<noteq> None \<longrightarrow> cycle (nodes s) (recency s)"
    using s(2) by (auto simp: well_formed_def)
  have pl: "len s \<le> cap s \<and> (cache s \<noteq> None \<longrightarrow> single_cycle s)"
    if "\<forall>x\<in>set xs. sets_plain_key x"
  proof -
    from steps_keep [OF s0(1,3,4,2) that, of c] s(1) have p: "plain s" "len s \<le> cap s"
      by auto
    with cy wf_len [OF s(2) p(1)] show ?thesis by (simp add: single_cycle_def)
  qed
  from s iff cy pl s0(5) show ?thesis unfolding s0_def by auto
qed

theorem invariants_after_every_operation_witness:
  "(0::int) < 2 \<and>
   list_all sets_plain_key
     [OpSet (Key ''a'') (1::int), OpSet (Key ''b'') 2, OpGet (Key ''a''), OpGet NaN,
      OpSet (Key ''c'') 3, OpTraverse refuse] \<and>
   (\<exists>s c'. steps [OpSet (Key ''a'') (1::int), OpSet (Key ''b'') 2, OpGet (Key ''a''),
                  OpGet NaN, OpSet (Key ''c'') 3, OpTraverse refuse]
              (NewLRUList 2 (Some picky), []) = Some (Done (s, c')) \<and>
      cap s = 2 \<and> cache s = Some 1 \<and> (cache s = None \<longleftrightarrow> len s = 0) \<and>
      cycle (nodes s) (recency s) \<and> len s \<le> cap s \<and> single_cycle s)"
proof -
  define xs :: "(string, int, int list) op list" where
    "xs = [OpSet (Key ''a'') 1, OpSet (Key ''b'') 2, OpGet (Key ''a''), OpGet NaN,
           OpSet (Key ''c'') 3, OpTraverse refuse]"
  define s1 :: "(string, int, int list) LRUList" where
    "s1 = \<lparr>cap = 2,
          cacheMap = \<lparr>entries = [''a'' \<mapsto> Some 0, ''c'' \<mapsto> Some 1], nan_entries = []\<rparr>,
          cache = Some 1,
          evict = Some picky,
          nodes = [\<lparr>key = Key ''a'', val = 1, prev = Some 1, next = Some 1\<rparr>,
                   \<lparr>key = Key ''c'', val = 3, prev = Some 0, next = Some 0\<rparr>]\<rparr>"
  have h: "(0::int) < 2" by simp
  have p: "list_all sets_plain_key xs" by (simp add: xs_def)
  then have q: "\<forall>x\<in>set xs. sets_plain_key x" by (simp add: list_all_iff)
  have run: "steps xs (NewLRUList 2 (Some picky), []) = Some (Done (s1, [2, 3]))"
    unfolding xs_def s1_def
    by (simp add: run_defs NewLRUList_def picky_def refuse_def Traverse_def)
  have hd: "cache s1 = Some 1" by (simp add: s1_def)
  from invariants_after_every_operation [OF h, of xs "Some picky" "[]"] q run hd
  have "cap s1 = 2 \<and> (cache s1 = None \<longleftrightarrow> len s1 = 0) \<and>
      cycle (nodes s1) (recency s1) \<and> len s1 \<le> cap s1 \<and> single_cycle s1"
    by simp
  with run hd have "\<exists>s c'. steps xs (NewLRUList 2 (Some picky), []) = Some (Done (s, c')) \<and>
      cap s = 2 \<and> cache s = Some 1 \<and> (cache s = None \<longleftrightarrow> len s = 0) \<and>
      cycle (nodes s) (recency s) \<and> len s \<le> cap s \<and> single_cycle s"
    by (intro exI [of _ s1] exI [of _ "[2, 3]"]) simp
  with h p show ?thesis unfolding xs_def by (intro conjI)
qed

text \<open>
  C4. In every interleaving of \<open>Set\<close> and \<open>Get\<close>, the key evicted by a \<open>Set\<close> of an
  absent key on a full list is the least recently touched of the stored keys.

  As long as no call of the eviction callback fails this is what the code does for keys
  that equal themselves (\<open>lru_when_eviction_never_fails\<close> above). It departs from it
  after a failed eviction. With capacity 2 and a callback that refuses to release the
  value 1: after \<open>Set("a", 1); Set("b", 2)\<close> the stored keys are \<open>b, a\<close>, most recently
  touched first. \<open>Set("c", 3)\<close> fails and leaves the head on the node of \<open>a\<close>. The next
  \<open>Set("c", 3)\<close> takes the predecessor of that head, hands the value 2 to the callback
  and evicts \<open>b\<close>, although \<open>a\<close> was touched before \<open>b\<close> and is still stored.
\<close>

theorem retry_after_failed_eviction_evicts_newer_key:
  "steps [OpSet (Key ''a'') 1, OpSet (Key ''b'') 2] (NewLRUList 2 (Some picky), []) =
     Some (Done (two_full (Some picky), [])) \<and>
   stored_keys (two_full (Some picky)) = [Key ''b'', Key ''a''] \<and>
   Set (two_full (Some picky)) (Key ''c'') 3 [] =
     Done (Some (Errorf ''busy''), (two_full (Some picky))\<lparr>cache := Some 0\<rparr>, [1]) \<and>
   Set ((two_full (Some picky))\<lparr>cache := Some 0\<rparr>) (Key ''c'') 3 [1] =
     Done (None,
       \<lparr>cap = 2,
        cacheMap = \<lparr>entries = [''a'' \<mapsto> Some 0, ''c'' \<mapsto> Some 1], nan_entries = []\<rparr>,
        cache = Some 1,
        evict = Some picky,
        nodes = [\<lparr>key = Key ''a'', val = 1, prev = Some 1, next = Some 1\<rparr>,
                 \<lparr>key = Key ''c'', val = 3, prev = Some 0, next = Some 0\<rparr>]\<rparr>,
       [1, 2])"
proof -
  have a: "steps [OpSet (Key ''a'') 1, OpSet (Key ''b'') 2] (NewLRUList 2 (Some picky), []) =
     Some (Done (two_full (Some picky), []))"
    by (rule two_full_built)
  have b: "Set (two_full (Some picky)) (Key ''c'') 3 [] =
     Done (Some (Errorf ''busy''), (two_full (Some picky))\<lparr>cache := Some 0\<rparr>, [1])"
    by (simp add: run_defs two_full_def picky_def)
  have c: "Set ((two_full (Some picky))\<lparr>cache := Some 0\<rparr>) (Key ''c'') 3 [1] =
     Done (None,
       \<lparr>cap = 2,
        cacheMap = \<lparr>entries = [''a'' \<mapsto> Some 0, ''c'' \<mapsto> Some 1], nan_entries = []\<rparr>,
        cache = Some 1,
        evict = Some picky,
        nodes = [\<lparr>key = Key ''a'', val = 1, prev = Some 1, next = Some 1\<rparr>,
                 \<lparr>key = Key ''c'', val = 3, prev = Some 0, next = Some 0\<rparr>]\<rparr>,
       [1, 2])"
    by (simp add: run_defs two_full_def picky_def)
  show ?thesis by (intro conjI a two_full_keys b c)
qed

text \<open>
  C5. \<open>Set\<close> of a key that is already present returns no error, makes the key's node
  the head (the recency order is the old one with that node moved to the front), stores
  the new value in that node, leaves the index as it was, so that \<open>len(cacheMap)\<close> is
  unchanged, and does not call the eviction callback: whatever the callback is, the
  state of its captured variables is the one \<open>Set\<close> was entered with.
\<close>

theorem Set_present_updates_in_place:
  assumes "well_formed s" and "map_get (cacheMap s) k = Some item"
  shows "\<exists>a s'. item = Some a \<and> Set s k v c = Done (None, s', c) \<and>
           cache s' = Some a \<and> recency s' = a # remove1 a (recency s) \<and>
           key (nodes s' ! a) = k \<and> val (nodes s' ! a) = v \<and>
           cacheMap s' = cacheMap s \<and> len s' = len s \<and> well_formed s'"
proof -
  from Set_present [OF assms, of v c] show ?thesis by (auto simp: len_def)
qed

theorem Set_present_updates_in_place_witness:
  "well_formed (two_full (Some refuse)) \<and>
   map_get (cacheMap (two_full (Some refuse))) (Key ''a'') = Some (Some 0) \<and>
   (\<exists>s'. Set (two_full (Some refuse)) (Key ''a'') 7 [] = Done (None, s', []) \<and>
      cache s' = Some 0 \<and> recency s' = [0, 1] \<and>
      key (nodes s' ! 0) = Key ''a'' \<and> val (nodes s' ! 0) = 7 \<and>
      cacheMap s' = cacheMap (two_full (Some refuse)) \<and>
      len s' = len (two_full (Some refuse)) \<and> well_formed s')"
proof -
  have h: "well_formed (two_full (Some refuse))"
    "map_get (cacheMap (two_full (Some refuse))) (Key ''a'') = Some (Some 0)"
    by (simp_all add: two_full_wf two_full_fields)
  from Set_present_updates_in_place [OF h, of 7 "[]"] h show ?thesis
    by (simp add: two_full_order)
qed

text \<open>
  C6. \<open>Get\<close> of a present key returns the value stored in the key's node and no error,
  and leaves that node at the head, that is, the key is the most recently used entry;
  the index is unchanged. \<open>Get\<close> of an absent key returns the error of a key that does
  not hit and the list exactly as it was. Present and absent are what the lookup of
  line 95 finds; a key that does not equal itself is never present.
\<close>

theorem Get_hit_or_miss:
  assumes "well_formed s"
  shows "case map_get (cacheMap s) k of
           None \<Rightarrow> Get s k = Done (None, Some (Errorf ''key doesn't hit''), s)
         | Some item \<Rightarrow>
             (\<exists>a s'. item = Some a \<and> key (nodes s ! a) = k \<and>
                Get s k = Done (Some (val (nodes s ! a)), None, s') \<and>
                cache s' = Some a \<and> recency s' = a # remove1 a (recency s) \<and>
                key (nodes s' ! a) = k \<and> val (nodes s' ! a) = val (nodes s ! a) \<and>
                cacheMap s' = cacheMap s \<and> well_formed s')"
proof (cases "map_get (cacheMap s) k")
  case None
  then show ?thesis by (simp add: Get_def)
next
  case (Some item)
  from Get_present [OF assms Some] Some show ?thesis by auto
qed

theorem Get_hit_or_miss_witness:
  "well_formed (two_full None) \<and>
   Get (two_full None) (Key ''c'') =
     Done (None, Some (Errorf ''key doesn't hit''), two_full None) \<and>
   Get (two_full None) NaN = Done (None, Some (Errorf ''key doesn't hit''), two_full None) \<and>
   (\<exists>s'. Get (two_full None) (Key ''a'') = Done (Some 1, None, s') \<and>
      cache s' = Some 0 \<and> recency s' = [0, 1] \<and> key (nodes s' ! 0) = Key ''a'' \<and>
      val (nodes s' ! 0) = 1 \<and> cacheMap s' = cacheMap (two_full None) \<and> well_formed s')"
proof -
  have h: "well_formed (two_full None)" by (rule two_full_wf)
  from Get_hit_or_miss [OF h, of "Key ''c''"] Get_hit_or_miss [OF h, of NaN]
    Get_hit_or_miss [OF h, of "Key ''a''"] h
  show ?thesis by (simp add: two_full_fields two_full_order)
qed

text \<open>
  C7. \<open>Traverse\<close> on an empty list returns no error and calls \<open>visit\<close> not at all; on
  a list that is not empty it calls \<open>visit\<close> once per stored value, from the most
  recently used to the least recently used, stops at the first call that fails and
  returns that failure, and leaves the recency order as it was.

  \<open>Traverse\<close> does return, changes nothing, and calls \<open>visit\<close> on the values in the
  order of \<open>next\<close> from the head up to the first failure (\<open>Traverse_wf\<close> above). That
  order is not from the most to the least recently used once an eviction has failed: on
  the list built by \<open>Set("a", 1); Set("b", 2)\<close> with capacity 2 a traversal visits 2 and
  then 1; after the failed \<open>Set("c", 3)\<close>, which stores nothing, a traversal visits 1
  and then 2, the value of \<open>a\<close> before the value of \<open>b\<close>, although \<open>b\<close> is still the
  most recently used key.
\<close>

theorem Traverse_after_failed_eviction_visits_oldest_first:
  "steps [OpSet (Key ''a'') 1, OpSet (Key ''b'') 2] (NewLRUList 2 (Some refuse), []) =
     Some (Done (two_full (Some refuse), [])) \<and>
   stored_keys (two_full (Some refuse)) = [Key ''b'', Key ''a''] \<and>
   Traverse (two_full (Some refuse)) record_visit [] =
     Some (Done (None, two_full (Some refuse), [2, 1])) \<and>
   Set (two_full (Some refuse)) (Key ''c'') 3 [] =
     Done (Some (Errorf ''busy''), (two_full (Some refuse))\<lparr>cache := Some 0\<rparr>, [1]) \<and>
   Traverse ((two_full (Some refuse))\<lparr>cache := Some 0\<rparr>) record_visit [] =
     Some (Done (None, (two_full (Some refuse))\<lparr>cache := Some 0\<rparr>, [1, 2]))"
proof -
  have a: "steps [OpSet (Key ''a'') 1, OpSet (Key ''b'') 2] (NewLRUList 2 (Some refuse), []) =
     Some (Done (two_full (Some refuse), []))"
    by (rule two_full_built)
  have b: "Traverse (two_full (Some refuse)) record_visit [] =
     Some (Done (None, two_full (Some refuse), [2, 1]))"
    using Traverse_wf [OF two_full_wf, of "Some refuse" record_visit "[]"]
    by (simp add: two_full_vals record_visit_def)
  have c: "Set (two_full (Some refuse)) (Key ''c'') 3 [] =
     Done (Some (Errorf ''busy''), (two_full (Some refuse))\<lparr>cache := Some 0\<rparr>, [1])"
    by (simp add: run_defs two_full_def refuse_def)
  have d: "Traverse ((two_full (Some refuse))\<lparr>cache := Some 0\<rparr>) record_visit [] =
     Some (Done (None, (two_full (Some refuse))\<lparr>cache := Some 0\<rparr>, [1, 2]))"
    using Traverse_wf [OF two_full_turned_wf, of "Some refuse" record_visit "[]"]
    by (simp add: two_full_turned_vals record_visit_def)
  show ?thesis by (intro conjI a two_full_keys b c d)
qed

text \<open>
  C8. For a present key, a second \<open>Get\<close> right after a first returns the same value and
  leaves the list exactly as the first \<open>Get\<close> left it: the same index, head, nodes and
  recency order.
\<close>

theorem Get_twice:
  assumes "well_formed s" and "map_get (cacheMap s) k = Some item"
  shows "\<exists>x s1. Get s k = Done (Some x, None, s1) \<and> Get s1 k = Done (Some x, None, s1)"
proof -
  from Get_present [OF assms]
  obtain a s1 where g: "item = Some a" "Get s k = Done (Some (val (nodes s ! a)), None, s1)"
    "cache s1 = Some a" "val (nodes s1 ! a) = val (nodes s ! a)" "cacheMap s1 = cacheMap s"
    "a < length (nodes s1)"
    by blast
  have "Get s1 k = Done (Some (val (nodes s ! a)), None, s1)"
    using g assms(2) by (simp add: Get_def load_def)
  with g(2) show ?thesis by blast
qed

theorem Get_twice_witness:
  "well_formed (two_full None) \<and>
   map_get (cacheMap (two_full None)) (Key ''a'') = Some (Some 0) \<and>
   (\<exists>s1. Get (two_full None) (Key ''a'') = Done (Some 1, None, s1) \<and>
      Get s1 (Key ''a'') = Done (Some 1, None, s1))"
proof -
  have h: "well_formed (two_full None)"
    "map_get (cacheMap (two_full None)) (Key ''a'') = Some (Some 0)"
    by (simp_all add: two_full_wf two_full_fields)
  have "Get (two_full None) (Key ''a'') =
    Done (Some 1, None,
       \<lparr>cap = 2,
        cacheMap = \<lparr>entries = [''a'' \<mapsto> Some 0, ''b'' \<mapsto> Some 1], nan_entries = []\<rparr>,
        cache = Some 0,
        evict = None,
        nodes = [\<lparr>key = Key ''a'', val = 1, prev = Some 1, next = Some 1\<rparr>,
                 \<lparr>key = Key ''b'', val = 2, prev = Some 0, next = Some 0\<rparr>]\<rparr>)"
    by (simp add: run_defs two_full_def)
  with Get_twice [OF h] h show ?thesis by auto
qed

text \<open>
  C9. \<open>NewLRUList\<close> has no guard: with a capacity of zero or less it yields an empty
  list like any other. On that list the first \<open>Set\<close> finds the key absent and the list
  not below its capacity, takes the branch that replaces the least recently used node and
  dereferences the nil head in \<open>lruc.cache.prev\<close>: the call panics instead of returning
  an error.
\<close>

theorem Set_panics_without_capacity:
  fixes k :: "'k gokey" and v :: 'v and c :: 'c
  assumes "n \<le> 0"
  shows "(NewLRUList n ev :: ('k, 'v, 'c) LRUList) =
           \<lparr>cap = n, cacheMap = \<lparr>entries = Map.empty, nan_entries = []\<rparr>, cache = None,
            evict = ev, nodes = []\<rparr> \<and>
         Set (NewLRUList n ev) k v c = NilPanic"
  using assms
  by (cases k) (simp_all add: NewLRUList_def Set_def len_def load_def map_empty_def
      map_get_def map_len_def)

theorem Set_panics_without_capacity_witness:
  "(0::int) \<le> 0 \<and>
   Set (NewLRUList 0 (Some refuse)) (Key ''a'') 1 [] = NilPanic \<and>
   Set (NewLRUList (- 1) None) (Key ''a'') (1::int) ([]::int list) = NilPanic"
proof -
  have h: "(0::int) \<le> 0" "(- 1::int) \<le> 0" by simp_all
  have a: "Set (NewLRUList 0 (Some refuse)) (Key ''a'') 1 [] = NilPanic"
    using Set_panics_without_capacity [OF h(1), of "Some refuse" "Key ''a''" 1 "[]"]
    by (rule conjunct2)
  have b: "Set (NewLRUList (- 1) None) (Key ''a'') (1::int) ([]::int list) = NilPanic"
    using Set_panics_without_capacity [OF h(2), of None "Key ''a''" "1::int" "[]::int list"]
    by (rule conjunct2)
  show ?thesis by (intro conjI h(1) a b)
qed

text \<open>
  C10. On a full list, when \<open>Set\<close> of an absent key calls the eviction callback and the
  callback fails, \<open>Set\<close> returns the failure and the list differs from the one before
  the call in the head only, which is now the node that was last in recency order: the
  index and all nodes are the same, every indexed key still maps to a node holding it,
  the nodes still form one cycle, of as many nodes as before, and the recency order is
  the old one with its last node moved to the front. The cycle is still one of
  \<open>len(cacheMap)\<close> nodes if it was before the call, as it is on every well-formed list
  that holds no key that does not equal itself.
\<close>

theorem failed_eviction_only_moves_head:
  assumes "well_formed s" and "map_get (cacheMap s) k = None" and "\<not> len s < cap s"
    and "cache s \<noteq> None"
    and "evict s = Some f" and "f (val (nodes s ! last (recency s))) c = (Some e, c')"
  shows "Set s k v c = Done (Some e, s\<lparr>cache := Some (last (recency s))\<rparr>, c') \<and>
         indexed (s\<lparr>cache := Some (last (recency s))\<rparr>) \<and>
         cycle (nodes s) (recency (s\<lparr>cache := Some (last (recency s))\<rparr>)) \<and>
         length (recency (s\<lparr>cache := Some (last (recency s))\<rparr>)) = length (recency s) \<and>
         (single_cycle s \<longrightarrow> single_cycle (s\<lparr>cache := Some (last (recency s))\<rparr>)) \<and>
         (plain s \<longrightarrow> single_cycle (s\<lparr>cache := Some (last (recency s))\<rparr>)) \<and>
         recency (s\<lparr>cache := Some (last (recency s))\<rparr>) =
           last (recency s) # butlast (recency s) \<and>
         well_formed (s\<lparr>cache := Some (last (recency s))\<rparr>)"
proof -
  define s1 where "s1 = s\<lparr>cache := Some (last (recency s))\<rparr>"
  have ev: "evicting s c = (Some e, c')" using assms(5,6) by (simp add: evicting_def)
  note f = Set_full [OF assms(1-4), folded s1_def]
  from Set_full(3) [OF assms(1-4), of v c] ev
  have run: "Set s k v c = Done (Some e, s1, c')" by (simp add: s1_def)
  from assms(4) obtain b where b: "cache s = Some b" by auto
  from wf_cycle [OF assms(1) b] have ne: "recency s \<noteq> []" by simp
  have "length (butlast (recency s) @ [last (recency s)]) = length (recency s)"
    using ne by simp
  then have len: "length (recency s1) = length (recency s)" using f(2) by simp
  have cy: "cycle (nodes s) (recency s1)" "indexed s1"
    using f(1) by (simp_all add: well_formed_def s1_def)
  have sc: "single_cycle s1" if "single_cycle s"
    using that len cy(1) by (simp add: single_cycle_def) (simp add: s1_def len_def)
  have "single_cycle s" if "plain s"
    using wf_len [OF assms(1) that] wf_cycle [OF assms(1) b] by (simp add: single_cycle_def)
  with sc have pl: "plain s \<longrightarrow> single_cycle s1" by blast
  from run cy len sc pl f(1,2) show ?thesis unfolding s1_def by blast
qed

theorem failed_eviction_only_moves_head_witness:
  "well_formed (two_full (Some refuse)) \<and>
   map_get (cacheMap (two_full (Some refuse))) (Key ''c'') = None \<and>
   \<not> len (two_full (Some refuse)) < cap (two_full (Some refuse)) \<and>
   cache (two_full (Some refuse)) \<noteq> None \<and> evict (two_full (Some refuse)) = Some refuse \<and>
   refuse (val (nodes (two_full (Some refuse)) ! last (recency (two_full (Some refuse))))) [] =
     (Some (Errorf ''busy''), [1]) \<and>
   single_cycle (two_full (Some refuse)) \<and> plain (two_full (Some refuse)) \<and>
   Set (two_full (Some refuse)) (Key ''c'') 3 [] =
     Done (Some (Errorf ''busy''), (two_full (Some refuse))\<lparr>cache := Some 0\<rparr>, [1]) \<and>
   indexed ((two_full (Some refuse))\<lparr>cache := Some 0\<rparr>) \<and>
   single_cycle ((two_full (Some refuse))\<lparr>cache := Some 0\<rparr>) \<and>
   recency ((two_full (Some refuse))\<lparr>cache := Some 0\<rparr>) = [0, 1] \<and>
   well_formed ((two_full (Some refuse))\<lparr>cache := Some 0\<rparr>)"
proof -
  have h: "well_formed (two_full (Some refuse))"
    "map_get (cacheMap (two_full (Some refuse))) (Key ''c'') = None"
    "\<not> len (two_full (Some refuse)) < cap (two_full (Some refuse))"
    "cache (two_full (Some refuse)) \<noteq> None" "evict (two_full (Some refuse)) = Some refuse"
    "refuse (val (nodes (two_full (Some refuse)) ! last (recency (two_full (Some refuse))))) [] =
     (Some (Errorf ''busy''), [1])"
    by (simp_all add: two_full_wf two_full_full two_full_fields two_full_order refuse_def)
  have sc: "single_cycle (two_full (Some refuse))" by (rule two_full_single_cycle)
  have pl: "plain (two_full (Some refuse))"
    by (simp add: plain_def two_full_order) (simp add: two_full_def)
  from failed_eviction_only_moves_head [OF h, of 3] h sc pl show ?thesis
    by (simp add: two_full_order)
qed


end
